theory Spec2Isabelle
  imports Complex_Main "HOL-Library.Multiset"
begin

section \<open>Values of the host language\<close>

text \<open>
  The embedding follows \<^verbatim>\<open>src/ws/BeamSocket.ts\<close>. Field and method names are the
  source's, without the leading underscore that Isabelle identifiers cannot carry
  (\<^verbatim>\<open>_spool\<close> is \<open>spool\<close>, \<^verbatim>\<open>_handleClose\<close> is \<open>handleClose\<close>).

  A parsed frame is a JSON value. Numbers are the integers (identifiers on the wire are
  unsigned integers; fractions play no role in the source): an integer stands for the
  number \<^verbatim>\<open>JSON.parse\<close> made of the text, one that the host represents exactly and
  prints in plain decimal digits (of magnitude below \<open>2 ^ 53\<close>). A property that is
  absent reads as \<^verbatim>\<open>undefined\<close>, modelled by \<open>None\<close>.
\<close>

datatype json =
    JNull
  | JBool bool
  | JNum int
  | JStr string
  | JArr "json list"
  | JObj "(string \<times> json) list"

text \<open>Exceptions of the language itself, thrown by an operation of the source.\<close>

datatype js_error = TypeError | ReferenceError

text \<open>
  Decimal digits of a number: the text the host uses for a numeric property key
  (\<^verbatim>\<open>this._replies[id]\<close> stores under the key \<^verbatim>\<open>String(id)\<close>).
\<close>

definition digit :: "nat \<Rightarrow> char" where
  "digit d = char_of (48 + d)"

function string_of_nat :: "nat \<Rightarrow> string" where
  "string_of_nat n =
     (if n < 10 then [digit n] else string_of_nat (n div 10) @ [digit (n mod 10)])"
  by pat_completeness auto
termination
  by (relation "measure id") auto

declare string_of_nat.simps [simp del]

definition nat_of_string :: "string \<Rightarrow> nat" where
  "nat_of_string cs = foldl (\<lambda>a c. 10 * a + (of_char c - 48)) 0 cs"

definition string_of_int :: "int \<Rightarrow> string" where
  "string_of_int i = (if i < 0 then CHR ''-'' # string_of_nat (nat (- i)) else string_of_nat (nat i))"

text \<open>
  \<^verbatim>\<open>ToString\<close> of the host on a JSON value: what a value becomes when it is used as a
  property key or concatenated to a string. An array joins its elements with commas
  (\<^verbatim>\<open>null\<close> elements as the empty text); an object is \<^verbatim>\<open>[object Object]\<close>.
\<close>

fun toString :: "json \<Rightarrow> string"
  and toString_elems :: "json list \<Rightarrow> string" where
  "toString JNull = ''null''"
| "toString (JBool b) = (if b then ''true'' else ''false'')"
| "toString (JNum i) = string_of_int i"
| "toString (JStr s) = s"
| "toString (JArr xs) = toString_elems xs"
| "toString (JObj fs) = ''[object Object]''"
| "toString_elems [] = []"
| "toString_elems [x] = (if x = JNull then [] else toString x)"
| "toString_elems (x # y # ys) =
     (if x = JNull then [] else toString x) @ '','' @ toString_elems (y # ys)"

definition js_to_string :: "json option \<Rightarrow> string" where
  "js_to_string v = (case v of None \<Rightarrow> ''undefined'' | Some j \<Rightarrow> toString j)"

text \<open>
  Reading a property of a parsed frame. \<^verbatim>\<open>JSON.parse\<close> keeps the last of two equal
  keys. Reading a property of \<^verbatim>\<open>null\<close> throws a \<^verbatim>\<open>TypeError\<close>; of a number, a
  string, a boolean or an array the properties the source reads (\<^verbatim>\<open>type\<close>, \<^verbatim>\<open>id\<close>,
  \<^verbatim>\<open>event\<close>, \<^verbatim>\<open>data\<close>, \<^verbatim>\<open>error\<close>) are \<^verbatim>\<open>undefined\<close>.
\<close>

definition field :: "json \<Rightarrow> string \<Rightarrow> json option" where
  "field j k = (case j of JObj fs \<Rightarrow> map_of (rev fs) k | _ \<Rightarrow> None)"

definition get_prop :: "json \<Rightarrow> string \<Rightarrow> js_error + json option" where
  "get_prop j k = (if j = JNull then Inl TypeError else Inr (field j k))"

text \<open>
  The names every object literal \<^verbatim>\<open>{}\<close> inherits from \<^verbatim>\<open>Object.prototype\<close>:
  \<^verbatim>\<open>this._replies[key]\<close> is not \<^verbatim>\<open>undefined\<close> for them, although no Reply is stored.
\<close>

definition Object_prototype_keys :: "string list" where
  "Object_prototype_keys =
     [''constructor'', ''toString'', ''toLocaleString'', ''valueOf'', ''hasOwnProperty'',
      ''isPrototypeOf'', ''propertyIsEnumerable'', ''__proto__'', ''__defineGetter__'',
      ''__defineSetter__'', ''__lookupGetter__'', ''__lookupSetter__'']"

text \<open>
  What \<^verbatim>\<open>this\<close> denotes inside a \<^verbatim>\<open>function\<close> body: the Session, or anything else
  (\<^verbatim>\<open>undefined\<close> for a plain call in strict code, the global object otherwise). The
  free identifier \<^verbatim>\<open>self\<close> of \<^verbatim>\<open>boot\<close> is a global of the host: not declared, or
  bound to some object.
\<close>

datatype receiver = This_session | Not_session

datatype global_self = Self_undeclared | Self_is receiver

section \<open>Data model\<close>

datatype status = IDLE | CONNECTED | CLOSING | CLOSED | CONNECTING

definition status_code :: "status \<Rightarrow> nat" where
  "status_code st = (case st of IDLE \<Rightarrow> 0 | CONNECTED \<Rightarrow> 1 | CLOSING \<Rightarrow> 2 | CLOSED \<Rightarrow> 3 | CONNECTING \<Rightarrow> 4)"

definition authMethod :: string where
  "authMethod = ''auth''"

text \<open>The counter of retries wraps at this constant (the field is never assigned).\<close>

definition retryWrap :: nat where
  "retryWrap = 7"

text \<open>An outbound frame \<^verbatim>\<open>{ type, method, arguments, id }\<close>.\<close>

record frame =
  frame_type :: string
  frame_method :: string
  frame_arguments :: "json list"
  frame_id :: nat

text \<open>The options of \<^verbatim>\<open>call\<close>; an absent flag is false, an absent timeout \<open>None\<close>.\<close>

record call_options =
  opt_noReply :: bool
  opt_timeout :: "nat option"
  opt_force :: bool

datatype error_obj =
    TimeoutError
  | BadMessageError string
  | NoMethodHandlerError string
  | AuthenticationFailedError string
  | TransportError string

text \<open>
  What \<^verbatim>\<open>emit\<close> was called with. Listeners that users register are observers outside
  the source; the log keeps every notification in the order of emission.
\<close>

datatype notification =
    Error error_obj
  | Packet json
  | Sent frame
  | Spooled frame
  | Closed
  | Reconnecting nat "nat option"
  | Connected
  | AuthResult "json option"
  | Named string "json option"

text \<open>Operations the Session performs on a transport handle.\<close>

datatype ws_op = Op_new "string option" | Op_send frame | Op_close | Op_ping

text \<open>The callbacks the source passes to \<^verbatim>\<open>setTimeout\<close>.\<close>

datatype timer_cb =
    Cb_ping
  | Cb_close_ws nat
  | Cb_boot
  | Cb_reject_timeout nat
  | Cb_reject_probe nat

text \<open>
  The promise \<^verbatim>\<open>call\<close> returns is \<^verbatim>\<open>send(...).then(race).catch(deregister)\<close>.
  Its progress: the send promise is already resolved and the \<^verbatim>\<open>then\<close> callback is
  queued (\<open>Queued\<close>), the frame sits in the spool (\<open>AwaitSend\<close> with its completion
  signal), the timeout timer runs against the reply promise (\<open>Racing\<close> with the timer),
  or it is settled (\<open>Done\<close>).
\<close>

datatype rejection = Rej_timeout | Rej_reply json

datatype settled = Resolved "json option" | Rejected rejection

datatype stage = Queued | AwaitSend nat | Racing nat | Done settled

text \<open>Who consumes the promise: a caller outside, \<^verbatim>\<open>unspool\<close>, or \<^verbatim>\<open>ping\<close>.\<close>

datatype origin = ByUser | ByUnspool | ByPing nat

record pcall =
  p_stage :: stage
  p_reply :: "settled option"
  p_noReply :: bool
  p_timeout :: "nat option"
  p_origin :: origin

record session =
  addressOffset :: nat
  spool :: "(frame \<times> nat) list"
  addresses :: "string list"
  ws :: "nat option"
  pingTimeoutHandle :: "nat option"
  retries :: nat
  reconnectTimeout :: "nat option"
  callNo :: nat
  status :: status
  authpacket :: "json list option"
  replies :: "string \<rightharpoonup> nat"
  pingInterval :: nat
  pingTimeout :: nat
  callTimeout :: nat
  emitted :: "notification list"
  wire :: "(nat \<times> ws_op) list"
  wsNo :: nat
  isNodeWebSocket :: bool
  globalSelf :: global_self
  timers :: "nat \<rightharpoonup> timer_cb \<times> nat"
  timerNo :: nat
  promiseNo :: nat
  resolved :: "nat list"
  calls :: "nat \<rightharpoonup> pcall"
  probes :: "nat \<rightharpoonup> nat"
  probeNo :: nat
  welcomeListeners :: nat
  randomValues :: "nat \<Rightarrow> real"
  randomNo :: nat

text \<open>
  The fields from \<open>emitted\<close> on belong to the host: the log of notifications, the log of
  transport operations and the next fresh handle, whether transports carry a native
  \<^verbatim>\<open>ping\<close>, the global \<^verbatim>\<open>self\<close>, the armed timers (callback and delay) and the next
  timer identity, the completion signals of spooled frames and those already resolved,
  the promises of the calls made, the native probes awaiting a pong (with their
  transport), the number of \<^verbatim>\<open>WelcomeEvent\<close> listeners \<^verbatim>\<open>boot\<close> has registered, and
  the values \<^verbatim>\<open>Math.random()\<close> gives, call after call (reals in \<open>[0, 1)\<close>), with the
  number of calls made.

  A method either returns, or throws after some of its effects have taken place.
\<close>

datatype 'a outcome = Returns 'a session | Throws js_error session

definition state_of :: "'a outcome \<Rightarrow> session" where
  "state_of r = (case r of Returns _ s \<Rightarrow> s | Throws _ s \<Rightarrow> s)"

record socket_options =
  given_pingInterval :: "nat option"
  given_pingTimeout :: "nat option"
  given_callTimeout :: "nat option"

text \<open>
  The constructor reads the first value of \<^verbatim>\<open>Math.random()\<close>. Its first three
  arguments describe the host.
\<close>

definition BeamSocket ::
  "bool \<Rightarrow> global_self \<Rightarrow> (nat \<Rightarrow> real) \<Rightarrow> string list \<Rightarrow> socket_options \<Rightarrow> session" where
  "BeamSocket node self rnd addrs opts =
     \<lparr> addressOffset = nat \<lfloor>rnd 0 * real (length addrs)\<rfloor>,
       spool = [],
       addresses = addrs,
       ws = None,
       pingTimeoutHandle = None,
       retries = 0,
       reconnectTimeout = None,
       callNo = 0,
       status = IDLE,
       authpacket = None,
       replies = Map.empty,
       pingInterval = (case given_pingInterval opts of None \<Rightarrow> 15 * 1000 | Some v \<Rightarrow> v),
       pingTimeout = (case given_pingTimeout opts of None \<Rightarrow> 5 * 1000 | Some v \<Rightarrow> v),
       callTimeout = (case given_callTimeout opts of None \<Rightarrow> 20 * 1000 | Some v \<Rightarrow> v),
       emitted = [],
       wire = [],
       wsNo = 0,
       isNodeWebSocket = node,
       globalSelf = self,
       timers = Map.empty,
       timerNo = 0,
       promiseNo = 0,
       resolved = [],
       calls = Map.empty,
       probes = Map.empty,
       probeNo = 0,
       welcomeListeners = 0,
       randomValues = rnd,
       randomNo = 1 \<rparr>"

section \<open>Operations\<close>

definition getStatus :: "session \<Rightarrow> nat" where
  "getStatus s = status_code (status s)"

definition isConnected :: "session \<Rightarrow> bool" where
  "isConnected s = (status s = CONNECTED)"

text \<open>
  \<^verbatim>\<open>emit\<close> appends to the log. The emitter of the host throws when an \<^verbatim>\<open>error\<close>
  notification finds no listener: the user is taken to have registered one.
\<close>

definition emit :: "notification \<Rightarrow> session \<Rightarrow> session" where
  "emit n s = s\<lparr>emitted := emitted s @ [n]\<rparr>"

definition clearTimeout :: "nat option \<Rightarrow> session \<Rightarrow> session" where
  "clearTimeout h s = (case h of None \<Rightarrow> s | Some t \<Rightarrow> s\<lparr>timers := (timers s)(t := None)\<rparr>)"

definition setTimeout :: "timer_cb \<Rightarrow> nat \<Rightarrow> session \<Rightarrow> nat \<times> session" where
  "setTimeout cb delay s =
     (timerNo s, s\<lparr>timers := (timers s)(timerNo s \<mapsto> (cb, delay)), timerNo := timerNo s + 1\<rparr>)"

definition ws_do :: "nat \<Rightarrow> ws_op \<Rightarrow> session \<Rightarrow> session" where
  "ws_do h op s = s\<lparr>wire := wire s @ [(h, op)]\<rparr>"

text \<open>\<^verbatim>\<open>getAddress\<close>: pre-increment, wrap to zero, read; out of range reads \<^verbatim>\<open>undefined\<close>.\<close>

definition getAddress :: "session \<Rightarrow> string option \<times> session" where
  "getAddress s =
     (let off = (if addressOffset s + 1 \<ge> length (addresses s) then 0 else addressOffset s + 1)
      in ((if off < length (addresses s) then Some (addresses s ! off) else None),
          s\<lparr>addressOffset := off\<rparr>))"

text \<open>\<^verbatim>\<open>Math.round\<close> rounds to the nearest integer, a half upwards.\<close>

definition Math_round :: "real \<Rightarrow> int" where
  "Math_round x = \<lfloor>x + 1 / 2\<rfloor>"

text \<open>
  \<^verbatim>\<open>_getNextReconnectInterval\<close>. With a random value in \<open>[0, 1)\<close> the power is at most
  7, so the 32-bit shift \<^verbatim>\<open>1 << power\<close> is the power of two.
\<close>

definition getNextReconnectInterval :: "session \<Rightarrow> nat \<times> session" where
  "getNextReconnectInterval s =
     (let power = retries s mod retryWrap + nat (Math_round (randomValues s (randomNo s)))
      in (2 ^ power * 500, s\<lparr>retries := retries s + 1, randomNo := randomNo s + 1\<rparr>))"

definition handleClose :: "session \<Rightarrow> session" where
  "handleClose s0 =
     (let s1 = (clearTimeout (pingTimeoutHandle s0) s0)\<lparr>pingTimeoutHandle := None\<rparr>;
          s2 = s1\<lparr>ws := None, welcomeListeners := 0\<rparr>
      in if status s2 = CLOSING then emit Closed (s2\<lparr>status := CLOSED\<rparr>)
         else (let (interval, s3) = getNextReconnectInterval s2;
                   s4 = s3\<lparr>status := CONNECTING\<rparr>;
                   (t, s5) = setTimeout Cb_boot interval s4;
                   s6 = s5\<lparr>reconnectTimeout := Some t\<rparr>
               in emit (Reconnecting interval (ws s6)) s6))"

definition resetPingTimeout :: "session \<Rightarrow> session" where
  "resetPingTimeout s0 =
     (let s1 = clearTimeout (pingTimeoutHandle s0) s0;
          (t, s2) = setTimeout Cb_ping (pingInterval s1) s1
      in s2\<lparr>pingTimeoutHandle := Some t\<rparr>)"

definition resetConnectionTimeout :: "timer_cb \<Rightarrow> session \<Rightarrow> session" where
  "resetConnectionTimeout handler s0 =
     (let s1 = clearTimeout (pingTimeoutHandle s0) s0;
          (t, s2) = setTimeout handler (pingTimeout s1) s1
      in s2\<lparr>pingTimeoutHandle := Some t\<rparr>)"

text \<open>
  \<^verbatim>\<open>send\<close>. The promise it returns is resolved at once, or pending on the completion
  signal pushed to the spool. \<^verbatim>\<open>this.ws.send\<close> on the absent transport throws.
\<close>

datatype send_result = Send_resolved | Send_pending nat

definition send :: "frame \<Rightarrow> bool \<Rightarrow> session \<Rightarrow> send_result outcome" where
  "send data force s =
     (if isConnected s \<or> force then
        (case ws s of
           None \<Rightarrow> Throws TypeError s
         | Some h \<Rightarrow> Returns Send_resolved (emit (Sent data) (ws_do h (Op_send data) s)))
      else if frame_method data \<noteq> authMethod then
        Returns (Send_pending (promiseNo s))
          (emit (Spooled data)
             (s\<lparr>spool := spool s @ [(data, promiseNo s)], promiseNo := promiseNo s + 1\<rparr>))
      else Returns Send_resolved s)"

text \<open>Calling the \<^verbatim>\<open>resolve\<close> of a spooled frame resolves its completion signal.\<close>

definition resolve_signal :: "nat \<Rightarrow> session \<Rightarrow> session" where
  "resolve_signal p s = s\<lparr>resolved := resolved s @ [p]\<rparr>"

text \<open>The loop of \<^verbatim>\<open>bang\<close>, from index \<open>i\<close>.\<close>

function bang_loop :: "nat \<Rightarrow> session \<Rightarrow> unit outcome" where
  "bang_loop i s =
     (if i < length (spool s) then
        (case send (fst (spool s ! i)) True s of
           Throws e s' \<Rightarrow> Throws e s'
         | Returns _ s' \<Rightarrow> bang_loop (i + 1) (resolve_signal (snd (spool s' ! i)) s'))
      else Returns () s)"
  by pat_completeness auto
termination
  by (relation "measure (\<lambda>(i, s). length (spool s) - i)")
    (auto simp: send_def emit_def ws_do_def resolve_signal_def split: option.splits if_splits)

declare bang_loop.simps [simp del]

text \<open>
  \<^verbatim>\<open>bang\<close> is a \<^verbatim>\<open>function\<close> declaration inside \<^verbatim>\<open>unspool\<close> whose body reads
  \<^verbatim>\<open>this._spool\<close>. Its first argument is what \<^verbatim>\<open>this\<close> denotes at the call: when
  it is not the Session, reading \<^verbatim>\<open>this._spool.length\<close> throws.
\<close>

definition bang :: "receiver \<Rightarrow> session \<Rightarrow> unit outcome" where
  "bang this s =
     (case this of
        Not_session \<Rightarrow> Throws TypeError s
      | This_session \<Rightarrow>
          (case bang_loop 0 s of
             Throws e s' \<Rightarrow> Throws e s'
           | Returns _ s1 \<Rightarrow>
               Returns () (emit Connected (s1\<lparr>spool := [], retries := 0, status := CONNECTED\<rparr>))))"

definition close :: "session \<Rightarrow> session" where
  "close s =
     (case ws s of
        Some h \<Rightarrow> (ws_do h Op_close s)\<lparr>status := CLOSING\<rparr>
      | None \<Rightarrow> (clearTimeout (reconnectTimeout s) s)\<lparr>status := CLOSED\<rparr>)"

subsection \<open>Continuations of promises\<close>

text \<open>
  The chain \<^verbatim>\<open>unspool\<close> hangs on its authentication call:
  \<^verbatim>\<open>.then(result => emit('authresult', result)).then(bang).catch(() => { emit error; close() })\<close>.
  A promise invokes \<^verbatim>\<open>bang\<close> as a plain function, so \<^verbatim>\<open>this\<close> is not the Session
  there; what \<^verbatim>\<open>bang\<close> throws is caught by the \<^verbatim>\<open>catch\<close>.
\<close>

definition unspool_catch :: "session \<Rightarrow> session" where
  "unspool_catch s = close (emit (Error (AuthenticationFailedError ''?'')) s)"

definition unspool_settled :: "settled \<Rightarrow> session \<Rightarrow> session" where
  "unspool_settled r s =
     (case r of
        Resolved v \<Rightarrow>
          (case bang Not_session (emit (AuthResult v) s) of
             Returns _ s' \<Rightarrow> s'
           | Throws _ s' \<Rightarrow> unspool_catch s')
      | Rejected _ \<Rightarrow> unspool_catch s)"

text \<open>
  The chain of \<^verbatim>\<open>ping\<close>: \<^verbatim>\<open>.then(_resetPingTimeout).catch(...)\<close>, with the transport
  \<open>h\<close> that was active when the probe started.
\<close>

definition ping_settled :: "nat \<Rightarrow> settled \<Rightarrow> session \<Rightarrow> session" where
  "ping_settled h r s =
     (case r of
        Resolved _ \<Rightarrow> resetPingTimeout s
      | Rejected Rej_timeout \<Rightarrow>
          (if ws s = Some h then handleClose (ws_do h Op_close (emit (Error TimeoutError) s))
           else s)
      | Rejected (Rej_reply _) \<Rightarrow> s)"

text \<open>Settling the promise of call \<open>i\<close> runs the continuation of its consumer.\<close>

definition settle :: "nat \<Rightarrow> settled \<Rightarrow> session \<Rightarrow> session" where
  "settle i r s =
     (case calls s i of
        None \<Rightarrow> s
      | Some c \<Rightarrow>
          (let s1 = s\<lparr>calls := (calls s)(i \<mapsto> c\<lparr>p_stage := Done r\<rparr>)\<rparr>
           in case p_origin c of
                ByUser \<Rightarrow> s1
              | ByUnspool \<Rightarrow> unspool_settled r s1
              | ByPing h \<Rightarrow> ping_settled h r s1))"

text \<open>
  The \<^verbatim>\<open>then\<close> callback of \<^verbatim>\<open>call\<close> (lines 502 to 513): nothing to wait for with
  \<^verbatim>\<open>noReply\<close>, else the race of \<^verbatim>\<open>timeout(options.timeout || callTimeout)\<close>
  against the reply promise.
\<close>

definition call_delay :: "nat option \<Rightarrow> session \<Rightarrow> nat" where
  "call_delay t s = (case t of None \<Rightarrow> callTimeout s | Some d \<Rightarrow> if d = 0 then callTimeout s else d)"

definition call_then :: "nat \<Rightarrow> session \<Rightarrow> session" where
  "call_then i s =
     (case calls s i of
        None \<Rightarrow> s
      | Some c \<Rightarrow>
          if p_noReply c then settle i (Resolved None) s
          else (let (t, s1) = setTimeout (Cb_reject_timeout i) (call_delay (p_timeout c) s) s
                in s1\<lparr>calls := (calls s1)(i \<mapsto> c\<lparr>p_stage := Racing t\<rparr>)\<rparr>))"

text \<open>
  The timer of \<^verbatim>\<open>timeout(delay)\<close> fires: the race is lost to it unless the reply promise
  is settled already; the \<^verbatim>\<open>catch\<close> of \<^verbatim>\<open>call\<close> (lines 514 to 519) deregisters the
  Reply and rethrows.
\<close>

definition timeout_fired :: "nat \<Rightarrow> session \<Rightarrow> session" where
  "timeout_fired i s =
     (case calls s i of
        None \<Rightarrow> s
      | Some c \<Rightarrow>
          (case p_stage c of
             Racing t \<Rightarrow>
               if p_reply c = None
               then settle i (Rejected Rej_timeout) (s\<lparr>replies := (replies s)(string_of_nat i := None)\<rparr>)
               else s
           | _ \<Rightarrow> s))"

text \<open>The queued reactions of the promise of call \<open>i\<close> run.\<close>

definition microtask :: "nat \<Rightarrow> session \<Rightarrow> session" where
  "microtask i s =
     (case calls s i of
        None \<Rightarrow> s
      | Some c \<Rightarrow>
          (case p_stage c of
             Queued \<Rightarrow> call_then i s
           | AwaitSend p \<Rightarrow> if p \<in> set (resolved s) then call_then i s else s
           | Racing t \<Rightarrow> (case p_reply c of None \<Rightarrow> s | Some r \<Rightarrow> settle i r s)
           | Done _ \<Rightarrow> s))"

subsection \<open>Calls\<close>

text \<open>
  \<^verbatim>\<open>call\<close>, up to the promise it returns: the call number is taken, the Reply is
  registered under it, and the frame goes to \<^verbatim>\<open>send\<close>. The last argument but one
  names the consumer of the promise.
\<close>

definition call :: "string \<Rightarrow> json list \<Rightarrow> call_options \<Rightarrow> origin \<Rightarrow> session \<Rightarrow> nat outcome" where
  "call method args opts org s =
     (let i = callNo s;
          s1 = s\<lparr>callNo := i + 1\<rparr>;
          s2 = s1\<lparr>replies := (replies s1)(string_of_nat i \<mapsto> i),
                  calls := (calls s1)(i \<mapsto> \<lparr>p_stage = Queued, p_reply = None,
                     p_noReply = opt_noReply opts, p_timeout = opt_timeout opts, p_origin = org\<rparr>)\<rparr>
      in case send \<lparr>frame_type = ''method'', frame_method = method, frame_arguments = args,
                    frame_id = i\<rparr> (opt_force opts) s2 of
           Throws e s3 \<Rightarrow> Throws e (s3\<lparr>calls := (calls s3)(i := None)\<rparr>)
         | Returns Send_resolved s3 \<Rightarrow> Returns i s3
         | Returns (Send_pending p) s3 \<Rightarrow>
             Returns i (s3\<lparr>calls := (calls s3)(i \<mapsto> \<lparr>p_stage = AwaitSend p, p_reply = None,
                     p_noReply = opt_noReply opts, p_timeout = opt_timeout opts, p_origin = org\<rparr>)\<rparr>))"

definition auth_options :: call_options where
  "auth_options = \<lparr>opt_noReply = False, opt_timeout = None, opt_force = True\<rparr>"

definition unspool :: "session \<Rightarrow> unit outcome" where
  "unspool s =
     (case authpacket s of
        Some tuple \<Rightarrow>
          (case call authMethod tuple auth_options ByUnspool s of
             Throws e s' \<Rightarrow> Throws e s'
           | Returns _ s' \<Rightarrow> Returns () s')
      | None \<Rightarrow> bang Not_session s)"

definition no_options :: call_options where
  "no_options = \<lparr>opt_noReply = False, opt_timeout = None, opt_force = False\<rparr>"

text \<open>
  \<^verbatim>\<open>auth\<close>: the tuple is saved; connected, the call goes out, otherwise the promise
  waits for the next \<^verbatim>\<open>authresult\<close> notification (no call is made).
\<close>

definition auth :: "json \<Rightarrow> json \<Rightarrow> json \<Rightarrow> session \<Rightarrow> nat option outcome" where
  "auth chan user authkey s =
     (let s1 = s\<lparr>authpacket := Some [chan, user, authkey]\<rparr>
      in if isConnected s1 then
           (case call ''auth'' [chan, user, authkey] no_options ByUser s1 of
              Throws e s' \<Rightarrow> Throws e s'
            | Returns i s' \<Rightarrow> Returns (Some i) s')
         else Returns None s1)"

subsection \<open>Inbound frames\<close>

text \<open>
  The listener \<^verbatim>\<open>boot\<close> registers with \<^verbatim>\<open>once('WelcomeEvent', ...)\<close>; the emitter
  invokes it on the Session. Each registered listener runs once; one that throws ends
  the emission.
\<close>

definition welcome_listener :: "session \<Rightarrow> unit outcome" where
  "welcome_listener s = unspool (resetPingTimeout s)"

fun run_welcome :: "nat \<Rightarrow> session \<Rightarrow> unit outcome" where
  "run_welcome 0 s = Returns () s"
| "run_welcome (Suc n) s =
     (case welcome_listener (s\<lparr>welcomeListeners := welcomeListeners s - 1\<rparr>) of
        Throws e s' \<Rightarrow> Throws e s'
      | Returns _ s' \<Rightarrow> run_welcome n s')"

definition emit_named :: "string \<Rightarrow> json option \<Rightarrow> session \<Rightarrow> unit outcome" where
  "emit_named name payload s =
     (let s1 = emit (Named name payload) s
      in if name = ''WelcomeEvent'' then run_welcome (welcomeListeners s1) s1 else Returns () s1)"

text \<open>
  Modelled from the spec: the class \<^verbatim>\<open>Reply\<close> (\<^verbatim>\<open>src/ws/Reply\<close>) is not among the
  sources. The spec has a reply carry either a result or an error, and the Pending Call
  resolved or rejected per that field: the reply promise is rejected with the
  \<^verbatim>\<open>error\<close> field when the envelope has one, else resolved with its \<^verbatim>\<open>data\<close> field.
  A promise settles once: a second settlement is ignored.
\<close>

definition reply_outcome :: "json \<Rightarrow> settled" where
  "reply_outcome packet =
     (case field packet ''error'' of
        Some e \<Rightarrow> Rejected (Rej_reply e)
      | None \<Rightarrow> Resolved (field packet ''data''))"

definition Reply_handle :: "nat \<Rightarrow> json \<Rightarrow> session \<Rightarrow> session" where
  "Reply_handle i packet s =
     (case calls s i of
        None \<Rightarrow> s
      | Some c \<Rightarrow>
          if p_reply c = None
          then s\<lparr>calls := (calls s)(i \<mapsto> c\<lparr>p_reply := Some (reply_outcome packet)\<rparr>)\<rparr>
          else s)"

text \<open>
  \<^verbatim>\<open>parsePacket\<close>. The text of the frame is represented by what \<^verbatim>\<open>JSON.parse\<close> makes
  of it: \<open>None\<close> when it throws a syntax error. The flags are absent (\<open>None\<close>) or carry
  \<^verbatim>\<open>binary\<close>.
\<close>

definition parsePacket :: "json option \<Rightarrow> bool option \<Rightarrow> session \<Rightarrow> unit outcome" where
  "parsePacket data flags s =
     (if flags = Some True then
        Returns () (emit (Error (BadMessageError ''Cannot parse binary packets. Wat.'')) s)
      else
        (case data of
           None \<Rightarrow> Returns () (emit (Error (BadMessageError ''Unable to parse packet as json'')) s)
         | Some packet \<Rightarrow>
             (let s1 = emit (Packet packet) s
              in case get_prop packet ''type'' of
                   Inl e \<Rightarrow> Throws e s1
                 | Inr ty \<Rightarrow>
                     if ty = Some (JStr ''reply'') then
                       (let key = js_to_string (field packet ''id'')
                        in case replies s1 key of
                             Some i \<Rightarrow>
                               Returns () ((Reply_handle i packet s1)
                                  \<lparr>replies := (replies s1)(key := None)\<rparr>)
                           | None \<Rightarrow>
                               if key \<in> set Object_prototype_keys then Throws TypeError s1
                               else Returns ()
                                 (emit (Error (NoMethodHandlerError ''No handler for reply ID.'')) s1))
                     else if ty = Some (JStr ''event'') then
                       emit_named (js_to_string (field packet ''event'')) (field packet ''data'') s1
                     else
                       Returns ()
                         (emit (Error (BadMessageError (''Unknown packet type '' @ js_to_string ty)))
                            s1))))"

subsection \<open>Keepalive\<close>

datatype ping_result = Ping_rejected error_obj | Ping_pending

definition ping_options :: "session \<Rightarrow> call_options" where
  "ping_options s = \<lparr>opt_noReply = False, opt_timeout = Some (pingTimeout s), opt_force = False\<rparr>"

definition ping :: "session \<Rightarrow> ping_result outcome" where
  "ping s0 =
     (let s1 = clearTimeout (pingTimeoutHandle s0) s0
      in if \<not> isConnected s1 then Returns (Ping_rejected TimeoutError) s1
         else
           (case ws s1 of
              None \<Rightarrow> Throws TypeError s1
            | Some h \<Rightarrow>
                if isNodeWebSocket s1 then
                  (let (t, s2) = setTimeout (Cb_reject_probe (probeNo s1)) (pingTimeout s1) s1;
                       s3 = s2\<lparr>probes := (probes s2)(probeNo s2 \<mapsto> h), probeNo := probeNo s2 + 1\<rparr>
                   in Returns Ping_pending (ws_do h Op_ping s3))
                else
                  (case call ''ping'' [] (ping_options s1) (ByPing h) s1 of
                     Throws e s' \<Rightarrow> Throws e s'
                   | Returns _ s' \<Rightarrow> Returns Ping_pending s')))"

text \<open>A native probe is answered by a pong of its transport, or its timer fires.\<close>

definition probe_ponged :: "nat \<Rightarrow> session \<Rightarrow> session" where
  "probe_ponged k s =
     (case probes s k of
        None \<Rightarrow> s
      | Some h \<Rightarrow> ping_settled h (Resolved None) (s\<lparr>probes := (probes s)(k := None)\<rparr>))"

definition probe_timed_out :: "nat \<Rightarrow> session \<Rightarrow> session" where
  "probe_timed_out k s =
     (case probes s k of
        None \<Rightarrow> s
      | Some h \<Rightarrow> ping_settled h (Rejected Rej_timeout) (s\<lparr>probes := (probes s)(k := None)\<rparr>))"

subsection \<open>Booting a transport and its callbacks\<close>

definition boot :: "session \<Rightarrow> session" where
  "boot s0 =
     (let (addr, s1) = getAddress s0;
          h = wsNo s1;
          s2 = ws_do h (Op_new addr) (s1\<lparr>ws := Some h, wsNo := h + 1\<rparr>);
          s3 = s2\<lparr>status := CONNECTING\<rparr>;
          s4 = resetConnectionTimeout (Cb_close_ws h) s3
      in s4\<lparr>welcomeListeners := welcomeListeners s4 + 1\<rparr>)"

text \<open>
  \<^verbatim>\<open>whilstSameSocket\<close> wraps every callback \<^verbatim>\<open>boot\<close> registers on the transport
  \<open>h\<close>: the identity check comes first, then \<^verbatim>\<open>fn.apply(self, args)\<close>.
\<close>

definition whilstSameSocket ::
  "nat \<Rightarrow> (receiver \<Rightarrow> session \<Rightarrow> unit outcome) \<Rightarrow> session \<Rightarrow> unit outcome" where
  "whilstSameSocket h fn s =
     (if ws s = Some h then
        (case globalSelf s of
           Self_undeclared \<Rightarrow> Throws ReferenceError s
         | Self_is r \<Rightarrow> fn r s)
      else Returns () s)"

text \<open>The four callbacks. Arrow functions keep the Session as \<^verbatim>\<open>this\<close>.\<close>

definition on_open :: "nat \<Rightarrow> session \<Rightarrow> unit outcome" where
  "on_open h = whilstSameSocket h (\<lambda>_ s. Returns () (resetConnectionTimeout (Cb_close_ws h) s))"

definition on_message :: "nat \<Rightarrow> json option \<Rightarrow> bool option \<Rightarrow> session \<Rightarrow> unit outcome" where
  "on_message h data flags =
     whilstSameSocket h
       (\<lambda>this s. case this of
                   Not_session \<Rightarrow> Throws TypeError s
                 | This_session \<Rightarrow> parsePacket data flags (resetPingTimeout s))"

definition on_close :: "nat \<Rightarrow> session \<Rightarrow> unit outcome" where
  "on_close h =
     whilstSameSocket h
       (\<lambda>this s. case this of
                   Not_session \<Rightarrow> Throws TypeError s
                 | This_session \<Rightarrow> Returns () (handleClose s))"

definition on_error :: "nat \<Rightarrow> string \<Rightarrow> session \<Rightarrow> unit outcome" where
  "on_error h err =
     whilstSameSocket h (\<lambda>_ s. Returns () (ws_do h Op_close (emit (Error (TransportError err)) s)))"

text \<open>A pong of transport \<open>h\<close> answers the probes waiting on it (\<^verbatim>\<open>ws.once('pong', ...)\<close>).\<close>

definition on_pong :: "nat \<Rightarrow> session \<Rightarrow> session" where
  "on_pong h s =
     fold (\<lambda>k s'. if probes s' k = Some h then probe_ponged k s' else s') [0..<probeNo s] s"

text \<open>An armed timer fires: it is disarmed and its callback runs.\<close>

definition timer_fired :: "nat \<Rightarrow> session \<Rightarrow> session" where
  "timer_fired t s =
     (case timers s t of
        None \<Rightarrow> s
      | Some (cb, delay) \<Rightarrow>
          (let s1 = s\<lparr>timers := (timers s)(t := None)\<rparr>
           in case cb of
                Cb_ping \<Rightarrow> state_of (ping s1)
              | Cb_close_ws h \<Rightarrow> ws_do h Op_close s1
              | Cb_boot \<Rightarrow> boot s1
              | Cb_reject_timeout i \<Rightarrow> timeout_fired i s1
              | Cb_reject_probe k \<Rightarrow> probe_timed_out k s1))"

section \<open>Runs of a Session\<close>

text \<open>
  What can happen to a Session: a method is invoked, a transport delivers an event, a
  timer fires, the queued reactions of a promise run. A method that throws leaves the
  state it had reached.
\<close>

datatype event =
    Ev_boot
  | Ev_close
  | Ev_ping
  | Ev_call string "json list" call_options
  | Ev_auth json json json
  | Ev_send frame bool
  | Ev_unspool
  | Ev_parsePacket "json option" "bool option"
  | Ev_open nat
  | Ev_message nat "json option" "bool option"
  | Ev_closed nat
  | Ev_error nat string
  | Ev_pong nat
  | Ev_timer nat
  | Ev_microtask nat

fun step :: "event \<Rightarrow> session \<Rightarrow> session" where
  "step Ev_boot s = boot s"
| "step Ev_close s = close s"
| "step Ev_ping s = state_of (ping s)"
| "step (Ev_call m args opts) s = state_of (call m args opts ByUser s)"
| "step (Ev_auth c u k) s = state_of (auth c u k s)"
| "step (Ev_send d f) s = state_of (send d f s)"
| "step Ev_unspool s = state_of (unspool s)"
| "step (Ev_parsePacket d f) s = state_of (parsePacket d f s)"
| "step (Ev_open h) s = state_of (on_open h s)"
| "step (Ev_message h d f) s = state_of (on_message h d f s)"
| "step (Ev_closed h) s = state_of (on_close h s)"
| "step (Ev_error h e) s = state_of (on_error h e s)"
| "step (Ev_pong h) s = on_pong h s"
| "step (Ev_timer t) s = timer_fired t s"
| "step (Ev_microtask i) s = microtask i s"

definition run :: "event list \<Rightarrow> session \<Rightarrow> session" where
  "run evs s = fold step evs s"

section \<open>The fate of a call\<close>

text \<open>
  The settlement of the promise \<^verbatim>\<open>call\<close> returned for call \<open>i\<close>, once it has one; the
  envelopes that are replies to call \<open>i\<close> (type \<^verbatim>\<open>reply\<close>, and an \<^verbatim>\<open>id\<close> that reads
  as the key of \<open>i\<close>); and the parsed text frames a run hands to \<^verbatim>\<open>parsePacket\<close>.
\<close>

definition settlement :: "session \<Rightarrow> nat \<Rightarrow> settled option" where
  "settlement s i =
     (case calls s i of
        None \<Rightarrow> None
      | Some c \<Rightarrow> (case p_stage c of Done r \<Rightarrow> Some r | _ \<Rightarrow> None))"

definition is_reply_for :: "nat \<Rightarrow> json \<Rightarrow> bool" where
  "is_reply_for i p \<longleftrightarrow>
     get_prop p ''type'' = Inr (Some (JStr ''reply''))
     \<and> js_to_string (field p ''id'') = string_of_nat i"

fun packets_of :: "event \<Rightarrow> json list" where
  "packets_of (Ev_parsePacket (Some p) f) = (if f = Some True then [] else [p])"
| "packets_of (Ev_message h (Some p) f) = (if f = Some True then [] else [p])"
| "packets_of _ = []"

definition inbound :: "event list \<Rightarrow> json list" where
  "inbound evs = concat (map packets_of evs)"

text \<open>
  Invariants of the registry of Replies and of the promises of the calls made, for the
  frames \<open>ps\<close> received so far: a Reply is stored under the decimal key of its own call
  number, below the counter; so is every promise; a settled reply promise carries the
  outcome of a received reply to that call; a settled call was timed out (and is then
  deregistered), asked for no reply, or carries its reply promise's outcome; only calls
  that expect a reply race a timer; and every armed timeout timer belongs to such a
  call and carries its configured delay.
\<close>

definition keys_ok :: "session \<Rightarrow> bool" where
  "keys_ok s \<longleftrightarrow> (\<forall>k i. replies s k = Some i \<longrightarrow> k = string_of_nat i \<and> i < callNo s)"

definition ids_ok :: "session \<Rightarrow> bool" where
  "ids_ok s \<longleftrightarrow> (\<forall>i c. calls s i = Some c \<longrightarrow> i < callNo s)"

definition replies_ok :: "json list \<Rightarrow> session \<Rightarrow> bool" where
  "replies_ok ps s \<longleftrightarrow>
     (\<forall>i c r. calls s i = Some c \<and> p_reply c = Some r \<longrightarrow>
         (\<exists>p\<in>set ps. is_reply_for i p \<and> r = reply_outcome p))"

definition done_ok :: "session \<Rightarrow> bool" where
  "done_ok s \<longleftrightarrow>
     (\<forall>i c r. calls s i = Some c \<and> p_stage c = Done r \<longrightarrow>
         (r = Rejected Rej_timeout \<and> replies s (string_of_nat i) = None \<and> \<not> p_noReply c)
         \<or> (r = Resolved None \<and> p_noReply c)
         \<or> (p_reply c = Some r \<and> \<not> p_noReply c))"

definition racing_ok :: "session \<Rightarrow> bool" where
  "racing_ok s \<longleftrightarrow> (\<forall>i c t. calls s i = Some c \<and> p_stage c = Racing t \<longrightarrow> \<not> p_noReply c)"

definition timers_ok :: "session \<Rightarrow> bool" where
  "timers_ok s \<longleftrightarrow>
     (\<forall>t i d. timers s t = Some (Cb_reject_timeout i, d) \<longrightarrow>
         (\<exists>c. calls s i = Some c \<and> \<not> p_noReply c \<and> d = call_delay (p_timeout c) s))"

definition good :: "json list \<Rightarrow> session \<Rightarrow> bool" where
  "good ps s \<longleftrightarrow>
     keys_ok s \<and> ids_ok s \<and> replies_ok ps s \<and> done_ok s \<and> racing_ok s \<and> timers_ok s"

text \<open>
  Two relations between a state and a later one: the registry, the promises, the call
  counter and the default timeout are the same and no timeout timer was added; and:
  the invariants carry over and settled calls stay settled as they are.
\<close>

definition same_calls :: "session \<Rightarrow> session \<Rightarrow> bool" where
  "same_calls s s' \<longleftrightarrow>
     calls s' = calls s \<and> replies s' = replies s \<and> callNo s' = callNo s
     \<and> callTimeout s' = callTimeout s
     \<and> (\<forall>t i d. timers s' t = Some (Cb_reject_timeout i, d) \<longrightarrow>
           timers s t = Some (Cb_reject_timeout i, d))"

definition keeps :: "json list \<Rightarrow> session \<Rightarrow> session \<Rightarrow> bool" where
  "keeps ps s s' \<longleftrightarrow>
     (good ps s \<longrightarrow>
        good ps s' \<and> (\<forall>i r. settlement s i = Some r \<longrightarrow> settlement s' i = Some r))"

text \<open>
  Invariants of the timers: identities are handed out in increasing order; the keepalive
  and reconnect handles of the Session never name a timeout timer of a call; and a call
  that races its timer without a handled reply still has that timer armed, with the
  call's own delay. With them: no completion signal is resolved, and the default
  timeout is the constructor's. Two more relations between a state and a later one: no
  timeout timer was removed and the calls are the same; and: the invariants carry over
  and every call keeps its options, its consumer and, while spooled, its stage.
\<close>

definition timer_ids_ok :: "session \<Rightarrow> bool" where
  "timer_ids_ok s \<longleftrightarrow>
     (\<forall>t x. timers s t = Some x \<longrightarrow> t < timerNo s)
     \<and> (\<forall>h i d. pingTimeoutHandle s = Some h \<longrightarrow>
           h < timerNo s \<and> timers s h \<noteq> Some (Cb_reject_timeout i, d))
     \<and> (\<forall>h i d. reconnectTimeout s = Some h \<longrightarrow>
           h < timerNo s \<and> timers s h \<noteq> Some (Cb_reject_timeout i, d))"

definition race_armed :: "session \<Rightarrow> bool" where
  "race_armed s \<longleftrightarrow>
     (\<forall>i c t. calls s i = Some c \<and> p_stage c = Racing t \<and> p_reply c = None \<longrightarrow>
         timers s t = Some (Cb_reject_timeout i, call_delay (p_timeout c) s))"

definition live :: "nat \<Rightarrow> session \<Rightarrow> bool" where
  "live ct s \<longleftrightarrow>
     callTimeout s = ct \<and> resolved s = [] \<and> ids_ok s \<and> timer_ids_ok s \<and> race_armed s"

definition same_races :: "session \<Rightarrow> session \<Rightarrow> bool" where
  "same_races s s' \<longleftrightarrow>
     calls s' = calls s \<and> callNo s' = callNo s \<and> callTimeout s' = callTimeout s
     \<and> resolved s' = resolved s
     \<and> (timer_ids_ok s \<longrightarrow>
          timer_ids_ok s'
          \<and> (\<forall>t i d. timers s t = Some (Cb_reject_timeout i, d) \<longrightarrow>
                timers s' t = Some (Cb_reject_timeout i, d)))"

definition call_kept :: "pcall \<Rightarrow> pcall \<Rightarrow> bool" where
  "call_kept c c' \<longleftrightarrow>
     p_timeout c' = p_timeout c \<and> p_noReply c' = p_noReply c \<and> p_origin c' = p_origin c
     \<and> (\<forall>p. p_stage c = AwaitSend p \<longrightarrow> p_stage c' = AwaitSend p)"

definition carries :: "nat \<Rightarrow> session \<Rightarrow> session \<Rightarrow> bool" where
  "carries ct s s' \<longleftrightarrow>
     (live ct s \<longrightarrow>
        live ct s'
        \<and> (\<forall>i c. calls s i = Some c \<longrightarrow> (\<exists>c'. calls s' i = Some c' \<and> call_kept c c')))"

section \<open>Harness\<close>

text \<open>What a method threw, if it threw.\<close>

definition thrown :: "'a outcome \<Rightarrow> js_error option" where
  "thrown r = (case r of Throws e _ \<Rightarrow> Some e | Returns _ _ \<Rightarrow> None)"

text \<open>The results of \<open>n\<close> consecutive calls of \<^verbatim>\<open>getAddress\<close>, and the state after them.\<close>

fun getAddress_times :: "nat \<Rightarrow> session \<Rightarrow> string option list \<times> session" where
  "getAddress_times 0 s = ([], s)"
| "getAddress_times (Suc n) s =
     (let (a, s1) = getAddress s; (as, s2) = getAddress_times n s1 in (a # as, s2))"

text \<open>
  Sample inputs for the closed theorems: a Session fresh from the constructor (two
  addresses, default options, a host whose \<^verbatim>\<open>self\<close> is not the Session and whose
  \<^verbatim>\<open>Math.random()\<close> always gives 0), frames, and that Session after \<^verbatim>\<open>boot\<close> and one \<^verbatim>\<open>call\<close>
  made before the welcome.
\<close>

definition default_options :: socket_options where
  "default_options = \<lparr>given_pingInterval = None, given_pingTimeout = None, given_callTimeout = None\<rparr>"

definition fresh_socket :: session where
  "fresh_socket = BeamSocket False (Self_is Not_session) (\<lambda>_. 0) [''a'', ''b''] default_options"

text \<open>
  Three more hosts: one whose transports have a native \<^verbatim>\<open>ping\<close> and that declares no
  global \<^verbatim>\<open>self\<close>; one whose global \<^verbatim>\<open>self\<close> has been bound to the Session; and
  the first host with a default call timeout of seven seconds.
\<close>

definition node_socket :: session where
  "node_socket = BeamSocket True Self_undeclared (\<lambda>_. 0) [''a'', ''b''] default_options"

definition bound_socket :: session where
  "bound_socket = BeamSocket False (Self_is This_session) (\<lambda>_. 0) [''a'', ''b''] default_options"

definition custom_options :: socket_options where
  "custom_options = \<lparr>given_pingInterval = None, given_pingTimeout = None,
     given_callTimeout = Some 7000\<rparr>"

definition custom_socket :: session where
  "custom_socket = BeamSocket False (Self_is Not_session) (\<lambda>_. 0) [''a'', ''b''] custom_options"

definition auth_frame :: frame where
  "auth_frame = \<lparr>frame_type = ''method'', frame_method = ''auth'',
     frame_arguments = [JNum 1, JNum 2, JStr ''key''], frame_id = 0\<rparr>"

definition whisper_frame :: frame where
  "whisper_frame = \<lparr>frame_type = ''method'', frame_method = ''whisper'',
     frame_arguments = [JStr ''bob'', JStr ''hi''], frame_id = 0\<rparr>"

definition welcome_packet :: json where
  "welcome_packet = JObj [(''type'', JStr ''event''), (''event'', JStr ''WelcomeEvent'')]"

definition spooled_socket :: session where
  "spooled_socket =
     state_of (call ''whisper'' [JStr ''bob'', JStr ''hi''] no_options ByUser (boot fresh_socket))"

text \<open>
  Runs of one forced call: answered by a reply (with and without the reaction that
  settles it), timed out, just sent, and made with a timeout of zero. A call that is
  spooled. A transport that closes and is replaced by one that delivers the welcome.
  Runs of a Session with a saved authentication tuple and a spooled frame: up to the
  welcome, on to the point where the authentication call races its timer, and on to a
  reply that carries an error or a result; and the same Session receiving the welcome
  frame, with the authentication call timing out.
\<close>

definition forced_options :: call_options where
  "forced_options = \<lparr>opt_noReply = False, opt_timeout = Some 3000, opt_force = True\<rparr>"

definition pong_reply :: json where
  "pong_reply = JObj [(''type'', JStr ''reply''), (''id'', JNum 0), (''data'', JStr ''pong'')]"

definition late_reply :: json where
  "late_reply = JObj [(''type'', JStr ''reply''), (''id'', JNum 0), (''data'', JStr ''late'')]"

definition replied_run :: "event list" where
  "replied_run = [Ev_boot, Ev_call ''ping'' [] forced_options, Ev_microtask 0,
     Ev_parsePacket (Some pong_reply) None, Ev_microtask 0]"

definition timed_out_run :: "event list" where
  "timed_out_run = [Ev_boot, Ev_call ''ping'' [] forced_options, Ev_microtask 0, Ev_timer 1]"

definition sent_run :: "event list" where
  "sent_run = [Ev_boot, Ev_call ''ping'' [] forced_options]"

definition answered_run :: "event list" where
  "answered_run = [Ev_boot, Ev_call ''ping'' [] forced_options, Ev_microtask 0,
     Ev_parsePacket (Some pong_reply) None]"

definition zero_timeout_options :: call_options where
  "zero_timeout_options = \<lparr>opt_noReply = False, opt_timeout = Some 0, opt_force = True\<rparr>"

definition zero_timeout_run :: "event list" where
  "zero_timeout_run = [Ev_boot, Ev_call ''ping'' [] zero_timeout_options, Ev_microtask 0]"

definition spooled_run :: "event list" where
  "spooled_run = [Ev_boot, Ev_call ''whisper'' [JStr ''bob'', JStr ''hi''] no_options]"

definition reconnect_run :: "event list" where
  "reconnect_run = [Ev_boot, Ev_closed 0, Ev_timer 1, Ev_open 1,
     Ev_message 1 (Some welcome_packet) None]"

definition auth_call_frame :: frame where
  "auth_call_frame = \<lparr>frame_type = ''method'', frame_method = ''auth'',
     frame_arguments = [JNum 1, JNum 2, JStr ''key''], frame_id = 1\<rparr>"

definition auth_boot_run :: "event list" where
  "auth_boot_run = [Ev_auth (JNum 1) (JNum 2) (JStr ''key''), Ev_boot,
     Ev_call ''whisper'' [JStr ''bob'', JStr ''hi''] no_options]"

definition auth_racing_run :: "event list" where
  "auth_racing_run = auth_boot_run @ [Ev_unspool, Ev_microtask 1]"

definition denied_reply :: json where
  "denied_reply = JObj [(''type'', JStr ''reply''), (''id'', JNum 1), (''error'', JStr ''denied'')]"

definition auth_denied_run :: "event list" where
  "auth_denied_run = auth_racing_run @ [Ev_parsePacket (Some denied_reply) None]"

definition auth_welcome_run :: "event list" where
  "auth_welcome_run = auth_boot_run @
     [Ev_parsePacket (Some welcome_packet) None, Ev_microtask 1, Ev_timer 2]"

definition granted_reply :: json where
  "granted_reply = JObj [(''type'', JStr ''reply''), (''id'', JNum 1), (''data'', JStr ''ok'')]"

definition auth_granted_run :: "event list" where
  "auth_granted_run = auth_racing_run @ [Ev_parsePacket (Some granted_reply) None, Ev_microtask 1]"

section \<open>Outcomes\<close>

lemma state_of_simps [simp]: "state_of (Returns v s) = s" "state_of (Throws e s) = s"
  by (simp_all add: state_of_def)

lemma state_of_map [simp]:
  "state_of (case r of Returns v s' \<Rightarrow> Returns (g v) s' | Throws e s' \<Rightarrow> Throws e s') = state_of r"
  "state_of (case r of Throws e s' \<Rightarrow> Throws e s' | Returns v s' \<Rightarrow> Returns (g v) s') = state_of r"
  by (simp_all split: outcome.splits)

section \<open>Endpoint selection\<close>

lemma getAddress_step:
  assumes "addressOffset s < length (addresses s)"
  shows "getAddress s =
     (Some (addresses s ! ((addressOffset s + 1) mod length (addresses s))),
      s\<lparr>addressOffset := (addressOffset s + 1) mod length (addresses s)\<rparr>)"
proof (cases "addressOffset s + 1 \<ge> length (addresses s)")
  case True
  with assms have "addressOffset s + 1 = length (addresses s)" by simp
  then have "(addressOffset s + 1) mod length (addresses s) = 0" by simp
  moreover have "addresses s \<noteq> []" using assms by auto
  ultimately show ?thesis using True assms by (simp add: getAddress_def Let_def)
next
  case False
  then have "(addressOffset s + 1) mod length (addresses s) = addressOffset s + 1" by simp
  with False show ?thesis by (simp add: getAddress_def Let_def)
qed

lemma getAddress_times_run:
  assumes "addressOffset s < length (addresses s)"
  shows "fst (getAddress_times k s) =
           map (\<lambda>j. Some (addresses s ! ((addressOffset s + 1 + j) mod length (addresses s)))) [0..<k]
         \<and> addressOffset (snd (getAddress_times k s)) = (addressOffset s + k) mod length (addresses s)
         \<and> addresses (snd (getAddress_times k s)) = addresses s"
  using assms
proof (induction k arbitrary: s)
  case 0
  then show ?case by simp
next
  case (Suc k)
  let ?N = "length (addresses s)"
  let ?s1 = "s\<lparr>addressOffset := (addressOffset s + 1) mod ?N\<rparr>"
  have g: "getAddress s = (Some (addresses s ! ((addressOffset s + 1) mod ?N)), ?s1)"
    using Suc.prems by (rule getAddress_step)
  have pos: "0 < ?N" using Suc.prems by auto
  have lt: "addressOffset ?s1 < length (addresses ?s1)" using pos by simp
  note ih = Suc.IH [OF lt]
  have m: "Suc (Suc (addressOffset s) mod ?N + j) mod ?N = Suc (Suc (addressOffset s + j)) mod ?N" for j
    using mod_add_left_eq [of "Suc (addressOffset s)" ?N "Suc j"] by simp
  have m2: "(Suc (addressOffset s) mod ?N + k) mod ?N = Suc (addressOffset s + k) mod ?N"
    using mod_add_left_eq [of "Suc (addressOffset s)" ?N k] by simp
  have l: "[0..<Suc k] = 0 # map Suc [0..<k]"
    by (simp add: upt_conv_Cons map_Suc_upt del: upt_Suc)
  have e1: "fst (getAddress_times (Suc k) s) =
        Some (addresses s ! ((addressOffset s + 1) mod ?N)) # fst (getAddress_times k ?s1)"
    by (simp add: g split: prod.splits)
  have e2: "snd (getAddress_times (Suc k) s) = snd (getAddress_times k ?s1)"
    by (simp add: g split: prod.splits)
  show ?case
    unfolding e1 e2 l using ih by (simp add: m m2 o_def)
qed

lemma round_robin:
  assumes "addressOffset s < length (addresses s)"
  shows "fst (getAddress_times (length (addresses s)) s) =
     map Some (rotate (addressOffset s + 1) (addresses s))"
proof -
  let ?N = "length (addresses s)"
  have "map (\<lambda>j. addresses s ! ((addressOffset s + 1 + j) mod ?N)) [0..<?N] =
        rotate (addressOffset s + 1) (addresses s)"
    by (rule nth_equalityI) (simp_all add: nth_rotate del: rotate_Suc)
  then have "map (\<lambda>j. Some (addresses s ! ((addressOffset s + 1 + j) mod ?N))) [0..<?N] =
        map Some (rotate (addressOffset s + 1) (addresses s))"
    by (metis (no_types, lifting) map_map o_def map_eq_conv)
  with getAddress_times_run [OF assms, of ?N] show ?thesis by simp
qed

lemma initial_offset:
  assumes "0 \<le> rnd 0" "rnd 0 < 1" "addrs \<noteq> []"
  shows "addressOffset (BeamSocket node self rnd addrs opts) < length addrs"
proof -
  let ?u = "rnd 0"
  have pos: "0 < real (length addrs)" using assms(3) by simp
  have "?u * real (length addrs) < real (length addrs)"
    using assms(2) pos by simp
  then have "\<lfloor>?u * real (length addrs)\<rfloor> < int (length addrs)"
    by (simp add: floor_less_iff)
  moreover have "0 \<le> \<lfloor>?u * real (length addrs)\<rfloor>" using assms(1) pos by simp
  ultimately show ?thesis by (simp add: BeamSocket_def nat_less_iff)
qed

lemma mset_rotate_eq: "mset (rotate n xs) = mset xs"
proof -
  let ?k = "n mod length xs"
  have "mset (rotate n xs) = mset (drop ?k xs) + mset (take ?k xs)"
    by (simp add: rotate_drop_take)
  also have "\<dots> = mset (take ?k xs @ drop ?k xs)"
    by (simp only: mset_append add.commute)
  also have "\<dots> = mset xs" by (simp only: append_take_drop_id)
  finally show ?thesis .
qed

lemma initial_offset_interval:
  assumes "0 \<le> rnd 0" "rnd 0 < 1" "addrs \<noteq> []"
  shows "addressOffset (BeamSocket node self rnd addrs opts) = k \<longleftrightarrow>
     real k / real (length addrs) \<le> rnd 0 \<and> rnd 0 < (real k + 1) / real (length addrs)"
proof -
  let ?N = "real (length addrs)"
  have pos: "0 < ?N" using assms(3) by simp
  have nn: "0 \<le> \<lfloor>rnd 0 * ?N\<rfloor>" using assms(1) pos by simp
  have "nat \<lfloor>rnd 0 * ?N\<rfloor> = k \<longleftrightarrow> \<lfloor>rnd 0 * ?N\<rfloor> = int k"
    using nn by auto
  also have "\<dots> \<longleftrightarrow> real k \<le> rnd 0 * ?N \<and> rnd 0 * ?N < real k + 1"
    by (simp add: floor_eq_iff)
  also have "\<dots> \<longleftrightarrow> real k / ?N \<le> rnd 0 \<and> rnd 0 < (real k + 1) / ?N"
    using pos by (simp add: pos_divide_le_eq pos_less_divide_eq)
  finally show ?thesis by (simp add: BeamSocket_def)
qed



section \<open>Reconnection backoff\<close>

lemma Math_round_unit:
  assumes "0 \<le> u" and "u < 1"
  shows "Math_round u = (if u < 1 / 2 then 0 else 1)"
  using assms by (auto simp: Math_round_def floor_eq_iff)

lemma interval_values:
  assumes "0 \<le> randomValues s (randomNo s)" and "randomValues s (randomNo s) < 1"
  shows "fst (getNextReconnectInterval s) =
     (if randomValues s (randomNo s) < 1 / 2 then 2 ^ (retries s mod 7) * 500
      else 2 ^ (retries s mod 7 + 1) * 500)"
  by (simp add: getNextReconnectInterval_def retryWrap_def Let_def Math_round_unit [OF assms])

lemma retries_emit [simp]: "retries (emit n s) = retries s"
  by (simp add: emit_def)

lemma retries_clearTimeout [simp]: "retries (clearTimeout h s) = retries s"
  by (simp add: clearTimeout_def split: option.splits)

lemma retries_setTimeout [simp]: "retries (snd (setTimeout cb d s)) = retries s"
  by (simp add: setTimeout_def)

lemma retries_ws_do [simp]: "retries (ws_do h op s) = retries s"
  by (simp add: ws_do_def)

lemma retries_interval [simp]: "retries (snd (getNextReconnectInterval s)) = retries s + 1"
  by (simp add: getNextReconnectInterval_def Let_def)

lemma retries_handleClose: "retries s \<le> retries (handleClose s)"
  by (simp add: handleClose_def Let_def split: prod.splits)
   (auto simp: getNextReconnectInterval_def setTimeout_def Let_def)

lemma retries_resetPingTimeout [simp]: "retries (resetPingTimeout s) = retries s"
  by (simp add: resetPingTimeout_def setTimeout_def Let_def)

lemma retries_resetConnectionTimeout [simp]: "retries (resetConnectionTimeout cb s) = retries s"
  by (simp add: resetConnectionTimeout_def setTimeout_def Let_def)

lemma retries_send [simp]: "retries (state_of (send d f s)) = retries s"
  by (simp add: send_def state_of_def split: option.splits)

lemma retries_close [simp]: "retries (close s) = retries s"
  by (simp add: close_def split: option.splits)

lemma retries_unspool_catch [simp]: "retries (unspool_catch s) = retries s"
  by (simp add: unspool_catch_def)

lemma retries_unspool_settled [simp]: "retries (unspool_settled r s) = retries s"
  by (simp add: unspool_settled_def bang_def split: settled.splits)

lemma retries_ping_settled: "retries s \<le> retries (ping_settled h r s)"
  using retries_handleClose [of "ws_do h Op_close (emit (Error TimeoutError) s)"]
  by (simp add: ping_settled_def split: settled.splits rejection.splits)

lemma retries_settle: "retries s \<le> retries (settle i r s)"
proof (cases "calls s i")
  case None
  then show ?thesis by (simp add: settle_def)
next
  case (Some c)
  let ?s1 = "s\<lparr>calls := (calls s)(i \<mapsto> c\<lparr>p_stage := Done r\<rparr>)\<rparr>"
  have "retries ?s1 = retries s" by simp
  with retries_ping_settled [of ?s1] Some show ?thesis
    by (simp add: settle_def Let_def split: origin.splits)
qed

lemma retries_call_then: "retries s \<le> retries (call_then i s)"
  using retries_settle [of s i "Resolved None"]
  by (simp add: call_then_def setTimeout_def Let_def split: option.splits)

lemma retries_timeout_fired: "retries s \<le> retries (timeout_fired i s)"
proof -
  have "retries (s\<lparr>replies := (replies s)(string_of_nat i := None)\<rparr>) = retries s" by simp
  with retries_settle [of "s\<lparr>replies := (replies s)(string_of_nat i := None)\<rparr>" i "Rejected Rej_timeout"]
  show ?thesis by (simp add: timeout_fired_def split: option.splits stage.splits)
qed

lemma retries_microtask: "retries s \<le> retries (microtask i s)"
  using retries_call_then [of s i] retries_settle [of s i]
  by (simp add: microtask_def split: option.splits stage.splits)

lemma retries_call [simp]: "retries (state_of (call m a opts org s)) = retries s"
  by (simp add: call_def send_def state_of_def emit_def ws_do_def Let_def split: option.splits)

lemma retries_unspool [simp]: "retries (state_of (unspool s)) = retries s"
proof (cases "authpacket s")
  case None
  then show ?thesis by (simp add: unspool_def bang_def state_of_def)
next
  case (Some tuple)
  then show ?thesis
    using retries_call [of authMethod tuple auth_options ByUnspool s]
    by (simp add: unspool_def state_of_def split: outcome.splits)
qed

lemma retries_auth [simp]: "retries (state_of (auth c u k s)) = retries s"
  using retries_call [of "''auth''" "[c, u, k]" no_options ByUser "s\<lparr>authpacket := Some [c, u, k]\<rparr>"]
  by (simp add: auth_def state_of_def Let_def split: outcome.splits)

lemma retries_welcome_listener [simp]: "retries (state_of (welcome_listener s)) = retries s"
  by (simp add: welcome_listener_def)

lemma retries_run_welcome [simp]: "retries (state_of (run_welcome n s)) = retries s"
proof (induction n arbitrary: s)
  case 0
  then show ?case by (simp add: state_of_def)
next
  case (Suc n)
  let ?s1 = "s\<lparr>welcomeListeners := welcomeListeners s - 1\<rparr>"
  have a: "retries (state_of (welcome_listener ?s1)) = retries s" by simp
  show ?case
  proof (cases "welcome_listener ?s1")
    case (Returns v s')
    with a Suc.IH [of s'] show ?thesis by (simp add: state_of_def)
  next
    case (Throws e s')
    with a show ?thesis by (simp add: state_of_def)
  qed
qed

lemma retries_emit_named [simp]: "retries (state_of (emit_named name p s)) = retries s"
  by (simp add: emit_named_def Let_def)

lemma retries_Reply_handle [simp]: "retries (Reply_handle i p s) = retries s"
  by (simp add: Reply_handle_def split: option.splits)

lemma retries_parsePacket [simp]: "retries (state_of (parsePacket d f s)) = retries s"
proof -
  have "retries (state_of (emit_named name p (emit n s))) = retries s" for name p n
    by (simp only: retries_emit_named retries_emit)
  then show ?thesis
    by (simp add: parsePacket_def Let_def split: option.splits sum.splits)
qed

lemma retries_ping [simp]: "retries (state_of (ping s)) = retries s"
  by (simp add: ping_def Let_def setTimeout_def split: option.splits)

lemma retries_probe: "retries s \<le> retries (probe_ponged k s)" "retries s \<le> retries (probe_timed_out k s)"
  using retries_ping_settled [of "s\<lparr>probes := (probes s)(k := None)\<rparr>"]
  by (simp_all add: probe_ponged_def probe_timed_out_def split: option.splits)

lemma retries_getAddress [simp]: "retries (snd (getAddress s)) = retries s"
  by (simp add: getAddress_def Let_def)

lemma retries_boot [simp]: "retries (boot s) = retries s"
  by (simp add: boot_def Let_def split: prod.splits)
    (metis retries_getAddress snd_conv)

lemma retries_on_open [simp]: "retries (state_of (on_open h s)) = retries s"
  by (simp add: on_open_def whilstSameSocket_def split: global_self.splits)

lemma retries_on_message [simp]: "retries (state_of (on_message h d f s)) = retries s"
  by (simp add: on_message_def whilstSameSocket_def split: global_self.splits receiver.splits)

lemma retries_on_close: "retries s \<le> retries (state_of (on_close h s))"
  using retries_handleClose [of s]
  by (simp add: on_close_def whilstSameSocket_def split: global_self.splits receiver.splits)

lemma retries_on_error [simp]: "retries (state_of (on_error h e s)) = retries s"
  by (simp add: on_error_def whilstSameSocket_def split: global_self.splits)

lemma retries_on_pong_fold:
  "retries s \<le> retries (fold (\<lambda>k s'. if probes s' k = Some h then probe_ponged k s' else s') ks s)"
proof (induction ks arbitrary: s)
  case Nil
  then show ?case by simp
next
  case (Cons k ks)
  show ?case
    using Cons.IH [of "probe_ponged k s"] Cons.IH [of s] retries_probe(1) [of s k]
    by (auto intro: order_trans)
qed

lemma retries_on_pong: "retries s \<le> retries (on_pong h s)"
  unfolding on_pong_def by (rule retries_on_pong_fold)

lemma retries_timer_fired: "retries s \<le> retries (timer_fired t s)"
proof (cases "timers s t")
  case None
  then show ?thesis by (simp add: timer_fired_def)
next
  case (Some p)
  obtain cb d where p: "p = (cb, d)" by (cases p)
  let ?s1 = "s\<lparr>timers := (timers s)(t := None)\<rparr>"
  have r: "retries ?s1 = retries s" by simp
  show ?thesis
    using Some p r retries_timeout_fired [of ?s1] retries_probe(2) [of ?s1]
    by (cases cb) (simp_all add: timer_fired_def Let_def)
qed

lemma retries_step: "retries s \<le> retries (step e s)"
  using retries_on_close retries_on_pong retries_timer_fired retries_microtask
  by (cases e) simp_all

lemma retries_bang:
  assumes "bang r s = Returns v s'"
  shows "retries s' = 0 \<and> status s' = CONNECTED \<and> spool s' = []"
  using assms by (auto simp: bang_def emit_def split: receiver.splits outcome.splits)

text \<open>
  The backoff. For every value \<open>n\<close> of the attempt counter and every value \<open>u\<close> of
  \<^verbatim>\<open>Math.random()\<close> in \<open>[0, 1)\<close>, the computed delay is \<open>2 ^ (n mod 7) * 500\<close> or
  \<open>2 ^ (n mod 7 + 1) * 500\<close> milliseconds: the first exactly when \<open>u < 1 / 2\<close>, the second
  exactly when \<open>1 / 2 \<le> u\<close>, two halves of equal length (a fair coin for a uniform
  \<open>u\<close>). The computation increments the counter. A transport open leaves the counter
  alone; no event of a run lowers it; and the one place that writes zero, \<^verbatim>\<open>bang\<close>,
  has flushed the spool and set the status to CONNECTED when it returns (it returns
  only when it is invoked on the Session).
\<close>
lemma reconnect_backoff:
  "(0 \<le> randomValues s (randomNo s) \<and> randomValues s (randomNo s) < 1 \<longrightarrow>
      fst (getNextReconnectInterval s) \<in>
        {2 ^ (retries s mod 7) * 500, 2 ^ (retries s mod 7 + 1) * 500}
    \<and> (fst (getNextReconnectInterval s) = 2 ^ (retries s mod 7) * 500
          \<longleftrightarrow> randomValues s (randomNo s) < 1 / 2)
    \<and> (fst (getNextReconnectInterval s) = 2 ^ (retries s mod 7 + 1) * 500
          \<longleftrightarrow> 1 / 2 \<le> randomValues s (randomNo s)))
   \<and> retries (snd (getNextReconnectInterval s)) = retries s + 1
   \<and> retries (state_of (on_open h s)) = retries s
   \<and> retries s \<le> retries (step e s)
   \<and> (bang r s = Returns v s' \<longrightarrow> retries s' = 0 \<and> status s' = CONNECTED \<and> spool s' = [])"
proof -
  have "fst (getNextReconnectInterval s) \<in>
        {2 ^ (retries s mod 7) * 500, 2 ^ (retries s mod 7 + 1) * 500}
    \<and> (fst (getNextReconnectInterval s) = 2 ^ (retries s mod 7) * 500
          \<longleftrightarrow> randomValues s (randomNo s) < 1 / 2)
    \<and> (fst (getNextReconnectInterval s) = 2 ^ (retries s mod 7 + 1) * 500
          \<longleftrightarrow> 1 / 2 \<le> randomValues s (randomNo s))"
    if "0 \<le> randomValues s (randomNo s)" "randomValues s (randomNo s) < 1"
    using interval_values [OF that] by auto
  then have a: "0 \<le> randomValues s (randomNo s) \<and> randomValues s (randomNo s) < 1 \<longrightarrow>
      fst (getNextReconnectInterval s) \<in>
        {2 ^ (retries s mod 7) * 500, 2 ^ (retries s mod 7 + 1) * 500}
    \<and> (fst (getNextReconnectInterval s) = 2 ^ (retries s mod 7) * 500
          \<longleftrightarrow> randomValues s (randomNo s) < 1 / 2)
    \<and> (fst (getNextReconnectInterval s) = 2 ^ (retries s mod 7 + 1) * 500
          \<longleftrightarrow> 1 / 2 \<le> randomValues s (randomNo s))"
    by blast
  have b: "retries (snd (getNextReconnectInterval s)) = retries s + 1
     \<and> retries (state_of (on_open h s)) = retries s" by simp
  have c: "bang r s = Returns v s' \<longrightarrow> retries s' = 0 \<and> status s' = CONNECTED \<and> spool s' = []"
    using retries_bang [of r s v s'] by blast
  show ?thesis using a b retries_step [of s e] c by blast
qed

lemma bang_empty_spool:
  "spool s = [] \<Longrightarrow> bang This_session s = Returns () (emit Connected (s\<lparr>spool := [], retries := 0, status := CONNECTED\<rparr>))"
  by (simp add: bang_def bang_loop.simps)

lemma reconnect_backoff_example:
  "fst (getNextReconnectInterval (fresh_socket\<lparr>retries := 9\<rparr>)) = 2000
   \<and> retries (snd (getNextReconnectInterval (fresh_socket\<lparr>retries := 9\<rparr>))) = 10
   \<and> retries (state_of (bang This_session (fresh_socket\<lparr>retries := 9\<rparr>))) = 0
   \<and> status (state_of (bang This_session (fresh_socket\<lparr>retries := 9\<rparr>))) = CONNECTED"
proof -
  let ?s = "fresh_socket\<lparr>retries := 9\<rparr>"
  have sp: "spool ?s = []" by (simp add: fresh_socket_def BeamSocket_def)
  have b: "bang This_session ?s = Returns () (emit Connected (?s\<lparr>spool := [], retries := 0, status := CONNECTED\<rparr>))"
    using sp by (rule bang_empty_spool)
  have u: "randomValues ?s (randomNo ?s) = 0" "retries ?s = 9"
    by (simp_all add: fresh_socket_def BeamSocket_def)
  from reconnect_backoff [of ?s 0 Ev_boot This_session "()" "emit Connected (?s\<lparr>spool := [], retries := 0, status := CONNECTED\<rparr>)"] b u
  have "retries (emit Connected (?s\<lparr>spool := [], retries := 0, status := CONNECTED\<rparr>)) = 0
     \<and> status (emit Connected (?s\<lparr>spool := [], retries := 0, status := CONNECTED\<rparr>)) = CONNECTED
     \<and> retries (snd (getNextReconnectInterval ?s)) = 10
     \<and> fst (getNextReconnectInterval ?s) = 2000"
    by simp
  then show ?thesis by (simp add: b)
qed

section \<open>Closure handling\<close>

text \<open>
  What \<^verbatim>\<open>_handleClose\<close> does when it is invoked on the Session: it clears the
  keepalive timer and the active transport handle. From CLOSING it sets CLOSED and emits the closed notification; no timer is
  added and the retry counter is untouched. From every other status it computes the
  backoff delay (the result of \<^verbatim>\<open>_getNextReconnectInterval\<close>), sets CONNECTING, arms a
  timer with that delay whose firing runs \<^verbatim>\<open>boot\<close>, and emits the reconnecting
  notification with the same delay. Its callers are the close callback of \<^verbatim>\<open>boot\<close>
  and the keepalive timeout of \<^verbatim>\<open>ping\<close>; whether the close callback reaches it is
  the subject of the section on close events.
\<close>
lemma closure_handling:
  "ws (handleClose s) = None
   \<and> pingTimeoutHandle (handleClose s) = None
   \<and> (status s = CLOSING \<longrightarrow>
        status (handleClose s) = CLOSED
      \<and> emitted (handleClose s) = emitted s @ [Closed]
      \<and> timers (handleClose s) = timers (clearTimeout (pingTimeoutHandle s) s)
      \<and> timerNo (handleClose s) = timerNo s
      \<and> reconnectTimeout (handleClose s) = reconnectTimeout s
      \<and> retries (handleClose s) = retries s)
   \<and> (status s \<noteq> CLOSING \<longrightarrow>
        status (handleClose s) = CONNECTING
      \<and> timers (handleClose s) =
          (timers (clearTimeout (pingTimeoutHandle s) s))
            (timerNo s \<mapsto> (Cb_boot, fst (getNextReconnectInterval s)))
      \<and> reconnectTimeout (handleClose s) = Some (timerNo s)
      \<and> emitted (handleClose s) = emitted s @ [Reconnecting (fst (getNextReconnectInterval s)) None]
      \<and> timer_fired (timerNo s) (handleClose s) =
          boot ((handleClose s)\<lparr>timers := (timers (handleClose s))(timerNo s := None)\<rparr>))"
proof -
  have c: "status s = CLOSING \<Longrightarrow> handleClose s =
      emit Closed ((clearTimeout (pingTimeoutHandle s) s)
        \<lparr>pingTimeoutHandle := None, ws := None, welcomeListeners := 0, status := CLOSED\<rparr>)"
    by (simp add: handleClose_def Let_def clearTimeout_def split: option.splits)
  have o: "status s \<noteq> CLOSING \<Longrightarrow> handleClose s =
      emit (Reconnecting (fst (getNextReconnectInterval s)) None)
        ((clearTimeout (pingTimeoutHandle s) s)
          \<lparr>pingTimeoutHandle := None, ws := None, welcomeListeners := 0,
            retries := retries s + 1, randomNo := randomNo s + 1, status := CONNECTING,
            timers := (timers (clearTimeout (pingTimeoutHandle s) s))
               (timerNo s \<mapsto> (Cb_boot, fst (getNextReconnectInterval s))),
            timerNo := timerNo s + 1, reconnectTimeout := Some (timerNo s)\<rparr>)"
    by (simp add: handleClose_def Let_def clearTimeout_def getNextReconnectInterval_def
        setTimeout_def emit_def split: option.splits)
  have 1: "ws (handleClose s) = None \<and> pingTimeoutHandle (handleClose s) = None"
    by (cases "status s = CLOSING") (simp_all add: c o emit_def)
  have 2: "status s = CLOSING \<longrightarrow>
        status (handleClose s) = CLOSED
      \<and> emitted (handleClose s) = emitted s @ [Closed]
      \<and> timers (handleClose s) = timers (clearTimeout (pingTimeoutHandle s) s)
      \<and> timerNo (handleClose s) = timerNo s
      \<and> reconnectTimeout (handleClose s) = reconnectTimeout s
      \<and> retries (handleClose s) = retries s"
    by (simp add: c emit_def clearTimeout_def split: option.splits)
  have 3: "status s \<noteq> CLOSING \<longrightarrow>
        status (handleClose s) = CONNECTING
      \<and> timers (handleClose s) =
          (timers (clearTimeout (pingTimeoutHandle s) s))
            (timerNo s \<mapsto> (Cb_boot, fst (getNextReconnectInterval s)))
      \<and> reconnectTimeout (handleClose s) = Some (timerNo s)
      \<and> emitted (handleClose s) = emitted s @ [Reconnecting (fst (getNextReconnectInterval s)) None]"
    by (simp add: o emit_def clearTimeout_def split: option.splits)
  have 4: "status s \<noteq> CLOSING \<longrightarrow> timer_fired (timerNo s) (handleClose s) =
          boot ((handleClose s)\<lparr>timers := (timers (handleClose s))(timerNo s := None)\<rparr>)"
  proof
    assume n: "status s \<noteq> CLOSING"
    have t: "timers (handleClose s) (timerNo s) = Some (Cb_boot, fst (getNextReconnectInterval s))"
      using 3 n by simp
    show "timer_fired (timerNo s) (handleClose s) =
          boot ((handleClose s)\<lparr>timers := (timers (handleClose s))(timerNo s := None)\<rparr>)"
      by (simp add: timer_fired_def t)
  qed
  show ?thesis using 1 2 3 4 by simp
qed

lemma closure_handling_example:
  "status (handleClose (boot fresh_socket)) = CONNECTING
   \<and> emitted (handleClose (boot fresh_socket)) = [Reconnecting 500 None]
   \<and> reconnectTimeout (handleClose (boot fresh_socket)) = Some 1
   \<and> timers (handleClose (boot fresh_socket)) 1 = Some (Cb_boot, 500)
   \<and> timers (handleClose (boot fresh_socket)) 0 = None
   \<and> status (handleClose (close (boot fresh_socket))) = CLOSED
   \<and> emitted (handleClose (close (boot fresh_socket))) = [Closed]
   \<and> reconnectTimeout (handleClose (close (boot fresh_socket))) = None"
proof -
  let ?b = "boot fresh_socket"
  have b: "status ?b = CONNECTING" "emitted ?b = []" "timerNo ?b = 1" "retries ?b = 0"
    "randomValues ?b (randomNo ?b) = 0" "pingTimeoutHandle ?b = Some 0" "reconnectTimeout ?b = None"
    "ws ?b = Some 0"
    by (simp_all add: fresh_socket_def BeamSocket_def default_options_def boot_def getAddress_def
        ws_do_def resetConnectionTimeout_def clearTimeout_def setTimeout_def Let_def)
  have i: "fst (getNextReconnectInterval ?b) = 500"
    by (simp add: getNextReconnectInterval_def retryWrap_def fresh_socket_def BeamSocket_def
        default_options_def boot_def getAddress_def ws_do_def resetConnectionTimeout_def
        clearTimeout_def setTimeout_def Let_def Math_round_def)
  have c: "status (close ?b) = CLOSING" "emitted (close ?b) = []" "reconnectTimeout (close ?b) = None"
    by (simp_all add: close_def b ws_do_def)
  from closure_handling [of ?b] b i
  have 1: "status (handleClose ?b) = CONNECTING
      \<and> emitted (handleClose ?b) = [Reconnecting 500 None]
      \<and> reconnectTimeout (handleClose ?b) = Some 1
      \<and> timers (handleClose ?b) 1 = Some (Cb_boot, 500)
      \<and> timers (handleClose ?b) 0 = None"
    by (simp add: clearTimeout_def)
  from closure_handling [of "close ?b"] c
  have 2: "status (handleClose (close ?b)) = CLOSED
      \<and> emitted (handleClose (close ?b)) = [Closed]
      \<and> reconnectTimeout (handleClose (close ?b)) = None"
    by simp
  show ?thesis using 1 2 by simp
qed

section \<open>Events of a superseded transport\<close>

text \<open>
  Claim C8. Each of the four callbacks \<^verbatim>\<open>boot\<close> registers on a transport (open,
  message, close, error) returns without any effect when that transport is not the
  Session's active one; in particular, after a newer \<^verbatim>\<open>boot\<close> every event of a
  transport created earlier leaves the whole Session state as it is.
\<close>
theorem stale_transport_ignored:
  "(ws s \<noteq> Some h \<longrightarrow>
      on_open h s = Returns () s \<and> on_message h d f s = Returns () s
    \<and> on_close h s = Returns () s \<and> on_error h e s = Returns () s)
   \<and> (h < wsNo s \<longrightarrow>
      ws (boot s) = Some (wsNo s)
    \<and> step (Ev_open h) (boot s) = boot s \<and> step (Ev_message h d f) (boot s) = boot s
    \<and> step (Ev_closed h) (boot s) = boot s \<and> step (Ev_error h e) (boot s) = boot s)"
proof -
  have g: "ws s' \<noteq> Some h \<Longrightarrow>
      on_open h s' = Returns () s' \<and> on_message h d f s' = Returns () s'
    \<and> on_close h s' = Returns () s' \<and> on_error h e s' = Returns () s'" for s'
    by (simp add: on_open_def on_message_def on_close_def on_error_def whilstSameSocket_def)
  have w: "ws (boot s) = Some (wsNo s)"
    by (simp add: boot_def getAddress_def resetConnectionTimeout_def setTimeout_def
        clearTimeout_def ws_do_def Let_def split: option.splits)
  have "h < wsNo s \<Longrightarrow> ws (boot s) \<noteq> Some h" using w by simp
  with g [of "boot s"] g [of s] w show ?thesis by simp
qed

theorem stale_transport_ignored_witness:
  "ws (boot (boot fresh_socket)) = Some 1
   \<and> on_close 0 (boot (boot fresh_socket)) = Returns () (boot (boot fresh_socket))
   \<and> on_message 0 (Some JNull) None (boot (boot fresh_socket)) = Returns () (boot (boot fresh_socket))
   \<and> step (Ev_error 0 ''reset'') (boot (boot fresh_socket)) = boot (boot fresh_socket)"
proof -
  let ?b = "boot fresh_socket"
  have n: "wsNo ?b = 1"
    by (simp add: fresh_socket_def BeamSocket_def default_options_def boot_def getAddress_def
        ws_do_def resetConnectionTimeout_def clearTimeout_def setTimeout_def Let_def)
  from stale_transport_ignored [of "boot ?b" 0 "Some JNull" None "''reset''"]
    stale_transport_ignored [of ?b 0 "Some JNull" None "''reset''"] n
  show ?thesis by simp
qed

section \<open>Events of the active transport\<close>

text \<open>
  On the active transport the wrapper goes on to \<^verbatim>\<open>fn.apply(self, args)\<close>. The open
  and error callbacks are arrow functions and only need \<^verbatim>\<open>self\<close> to be declared;
  the message and close callbacks are \<^verbatim>\<open>function\<close> expressions that use \<^verbatim>\<open>this\<close>,
  and reach \<^verbatim>\<open>parsePacket\<close> and \<^verbatim>\<open>_handleClose\<close> only when the host's global
  \<^verbatim>\<open>self\<close> is the Session. The keepalive timeout invokes closure handling on the
  Session itself.
\<close>

lemma on_open_active:
  assumes "ws s = Some h"
  shows "on_open h s =
     (case globalSelf s of
        Self_undeclared \<Rightarrow> Throws ReferenceError s
      | Self_is r \<Rightarrow> Returns () (resetConnectionTimeout (Cb_close_ws h) s))"
  using assms by (simp add: on_open_def whilstSameSocket_def split: global_self.splits)

lemma on_error_active:
  assumes "ws s = Some h"
  shows "on_error h e s =
     (case globalSelf s of
        Self_undeclared \<Rightarrow> Throws ReferenceError s
      | Self_is r \<Rightarrow> Returns () (ws_do h Op_close (emit (Error (TransportError e)) s)))"
  using assms by (simp add: on_error_def whilstSameSocket_def split: global_self.splits)

lemma on_close_active:
  assumes "ws s = Some h"
  shows "on_close h s =
     (case globalSelf s of
        Self_undeclared \<Rightarrow> Throws ReferenceError s
      | Self_is Not_session \<Rightarrow> Throws TypeError s
      | Self_is This_session \<Rightarrow> Returns () (handleClose s))"
  using assms
  by (simp add: on_close_def whilstSameSocket_def split: global_self.splits receiver.splits)

lemma on_message_active:
  assumes "ws s = Some h"
  shows "on_message h d f s =
     (case globalSelf s of
        Self_undeclared \<Rightarrow> Throws ReferenceError s
      | Self_is Not_session \<Rightarrow> Throws TypeError s
      | Self_is This_session \<Rightarrow> parsePacket d f (resetPingTimeout s))"
  using assms
  by (simp add: on_message_def whilstSameSocket_def split: global_self.splits receiver.splits)

lemma keepalive_timeout_closes:
  assumes "ws s = Some h"
  shows "ping_settled h (Rejected Rej_timeout) s =
     handleClose (ws_do h Op_close (emit (Error TimeoutError) s))"
  using assms by (simp add: ping_settled_def)

section \<open>Keepalive probe while not connected\<close>

text \<open>
  Claim C9. When the Session is not CONNECTED, \<^verbatim>\<open>ping\<close> returns a promise rejected
  with a timeout error; nothing is sent, nothing is spooled, nothing is emitted, the
  transport is not closed and the status stays: the only field that can differ is the
  set of armed timers, where the keepalive timer has been cleared.
\<close>
theorem ping_not_connected:
  assumes "\<not> isConnected s"
  shows "ping s = Returns (Ping_rejected TimeoutError) (s\<lparr>timers := timers (clearTimeout (pingTimeoutHandle s) s)\<rparr>)
    \<and> wire (state_of (ping s)) = wire s
    \<and> spool (state_of (ping s)) = spool s
    \<and> emitted (state_of (ping s)) = emitted s
    \<and> status (state_of (ping s)) = status s
    \<and> ws (state_of (ping s)) = ws s"
proof -
  have e: "clearTimeout h s = s\<lparr>timers := timers (clearTimeout h s)\<rparr>" for h
    by (simp add: clearTimeout_def split: option.splits)
  have n: "\<not> isConnected (clearTimeout (pingTimeoutHandle s) s)"
    using assms by (simp add: isConnected_def clearTimeout_def split: option.splits)
  have "ping s = Returns (Ping_rejected TimeoutError) (clearTimeout (pingTimeoutHandle s) s)"
    using n by (simp add: ping_def Let_def)
  with e [of "pingTimeoutHandle s"]
  have p: "ping s = Returns (Ping_rejected TimeoutError) (s\<lparr>timers := timers (clearTimeout (pingTimeoutHandle s) s)\<rparr>)"
    by simp
  show ?thesis unfolding p by simp
qed

theorem ping_not_connected_witness:
  "\<not> isConnected (boot fresh_socket)
   \<and> ping (boot fresh_socket) = Returns (Ping_rejected TimeoutError) ((boot fresh_socket)\<lparr>timers := Map.empty\<rparr>)
   \<and> wire (state_of (ping (boot fresh_socket))) = [(0, Op_new (Some ''b''))]
   \<and> emitted (state_of (ping (boot fresh_socket))) = []"
proof -
  let ?b = "boot fresh_socket"
  have b: "status ?b = CONNECTING" "emitted ?b = []" "pingTimeoutHandle ?b = Some 0"
    "timers ?b = [0 \<mapsto> (Cb_close_ws 0, 5000)]" "wire ?b = [(0, Op_new (Some ''b''))]"
    by (simp_all add: fresh_socket_def BeamSocket_def default_options_def boot_def getAddress_def
        ws_do_def resetConnectionTimeout_def clearTimeout_def setTimeout_def Let_def)
  have n: "\<not> isConnected ?b" by (simp add: isConnected_def b)
  have t: "timers (clearTimeout (pingTimeoutHandle ?b) ?b) = Map.empty"
    by (simp add: clearTimeout_def b)
  from ping_not_connected [OF n] show ?thesis using n b t by simp
qed

section \<open>The authentication frame while not connected\<close>

text \<open>
  Claim C10. \<^verbatim>\<open>send\<close> of a frame whose method is the authentication method, on a
  Session that is not CONNECTED and without \<^verbatim>\<open>force\<close>, returns a resolved promise
  and leaves the whole Session state unchanged: nothing transmitted, nothing spooled,
  nothing emitted.
\<close>
theorem send_drops_auth_when_disconnected:
  assumes "\<not> isConnected s" and "\<not> force" and "frame_method data = authMethod"
  shows "send data force s = Returns Send_resolved s"
  using assms by (simp add: send_def)

theorem send_drops_auth_when_disconnected_witness:
  "\<not> isConnected fresh_socket \<and> frame_method auth_frame = authMethod
   \<and> send auth_frame False fresh_socket = Returns Send_resolved fresh_socket"
proof -
  have n: "\<not> isConnected fresh_socket"
    by (simp add: isConnected_def fresh_socket_def BeamSocket_def)
  have m: "frame_method auth_frame = authMethod"
    by (simp add: auth_frame_def authMethod_def)
  from send_drops_auth_when_disconnected [OF n _ m, of False] n m show ?thesis by simp
qed

section \<open>Call and reply correlation\<close>

subsection \<open>Decimal keys\<close>

lemma nat_of_string_append:
  "nat_of_string (xs @ [c]) = 10 * nat_of_string xs + (of_char c - 48)"
  by (simp add: nat_of_string_def)

lemma of_char_digit: "d < 10 \<Longrightarrow> of_char (digit d) = 48 + d"
  by (simp add: digit_def)

lemma nat_of_string_of_nat: "nat_of_string (string_of_nat n) = n"
proof (induction n rule: string_of_nat.induct)
  case (1 n)
  show ?case
  proof (cases "n < 10")
    case True
    then show ?thesis
      by (simp add: string_of_nat.simps [of n] nat_of_string_def of_char_digit)
  next
    case False
    have "nat_of_string (string_of_nat n) =
        10 * nat_of_string (string_of_nat (n div 10)) + (of_char (digit (n mod 10)) - 48)"
      using False by (simp add: string_of_nat.simps [of n] nat_of_string_append)
    also have "\<dots> = 10 * (n div 10) + n mod 10"
      using "1.IH" [OF False] by (simp add: of_char_digit)
    finally show ?thesis by simp
  qed
qed

lemma string_of_nat_inj: "string_of_nat m = string_of_nat n \<Longrightarrow> m = n"
  by (metis nat_of_string_of_nat)

lemma last_string_of_nat: "last (string_of_nat n) = digit (n mod 10)"
  by (cases "n < 10") (simp_all add: string_of_nat.simps [of n])

lemma string_of_nat_not_inherited: "string_of_nat n \<notin> set Object_prototype_keys"
proof
  assume a: "string_of_nat n \<in> set Object_prototype_keys"
  have "of_char (last (string_of_nat n)) = (48 + n mod 10 :: nat)"
    by (simp add: last_string_of_nat of_char_digit)
  then have "of_char (last (string_of_nat n)) < (58 :: nat)" by simp
  moreover have "\<forall>k \<in> set Object_prototype_keys. (of_char (last k) :: nat) \<ge> 58"
    by (simp add: Object_prototype_keys_def)
  ultimately show False using a by fastforce
qed

subsection \<open>The two relations\<close>

lemma same_calls_refl [simp]: "same_calls s s"
  by (simp add: same_calls_def)

lemma same_calls_trans: "same_calls s s' \<Longrightarrow> same_calls s' s'' \<Longrightarrow> same_calls s s''"
  by (simp add: same_calls_def)

lemma keeps_refl [simp]: "keeps ps s s"
  by (simp add: keeps_def)

lemma keeps_trans: "keeps ps s s' \<Longrightarrow> keeps ps s' s'' \<Longrightarrow> keeps ps s s''"
  by (simp add: keeps_def)

lemma call_delay_cong: "callTimeout s' = callTimeout s \<Longrightarrow> call_delay t s' = call_delay t s"
  by (simp add: call_delay_def split: option.splits)

lemma call_delay_update [simp]:
  "call_delay x (s\<lparr>calls := a\<rparr>) = call_delay x s"
  "call_delay x (s\<lparr>replies := b\<rparr>) = call_delay x s"
  "call_delay x (s\<lparr>timers := c\<rparr>) = call_delay x s"
  "call_delay x (s\<lparr>timerNo := d\<rparr>) = call_delay x s"
  "call_delay x (s\<lparr>callNo := e\<rparr>) = call_delay x s"
  by (simp_all add: call_delay_def split: option.splits)

lemma same_calls_good:
  assumes "same_calls s s'" and "good ps s"
  shows "good ps s'"
proof -
  from assms(1) have e: "calls s' = calls s" "replies s' = replies s" "callNo s' = callNo s"
    "callTimeout s' = callTimeout s"
    and tm: "\<And>t i d. timers s' t = Some (Cb_reject_timeout i, d) \<Longrightarrow>
           timers s t = Some (Cb_reject_timeout i, d)"
    by (simp_all add: same_calls_def)
  from assms(2) have g: "keys_ok s" "ids_ok s" "replies_ok ps s" "done_ok s" "racing_ok s" "timers_ok s"
    by (simp_all add: good_def)
  have "keys_ok s'" using g(1) by (simp add: keys_ok_def e)
  moreover have "ids_ok s'" using g(2) by (simp add: ids_ok_def e)
  moreover have "replies_ok ps s'" using g(3) by (simp add: replies_ok_def e)
  moreover have "done_ok s'" using g(4) by (simp add: done_ok_def e)
  moreover have "racing_ok s'" using g(5) by (simp add: racing_ok_def e)
  moreover have "timers_ok s'"
    unfolding timers_ok_def
  proof (intro allI impI)
    fix t i d assume "timers s' t = Some (Cb_reject_timeout i, d)"
    then have "timers s t = Some (Cb_reject_timeout i, d)" by (rule tm)
    with g(6) obtain c where "calls s i = Some c" "\<not> p_noReply c" "d = call_delay (p_timeout c) s"
      unfolding timers_ok_def by blast
    then show "\<exists>c. calls s' i = Some c \<and> \<not> p_noReply c \<and> d = call_delay (p_timeout c) s'"
      by (simp add: e call_delay_cong [OF e(4)])
  qed
  ultimately show ?thesis by (simp add: good_def)
qed

lemma same_calls_settlement: "same_calls s s' \<Longrightarrow> settlement s' i = settlement s i"
  by (simp add: same_calls_def settlement_def)

lemma same_calls_keeps: "same_calls s s' \<Longrightarrow> keeps ps s s'"
  unfolding keeps_def by (simp add: same_calls_good same_calls_settlement)

lemma good_mono: "good ps s \<Longrightarrow> set ps \<subseteq> set ps' \<Longrightarrow> good ps' s"
  unfolding good_def replies_ok_def by (simp add: subset_iff) blast

subsection \<open>Operations that leave the registry alone\<close>

lemma same_calls_emit [simp]: "same_calls s (emit n s)"
  by (simp add: same_calls_def emit_def)

lemma same_calls_clearTimeout [simp]: "same_calls s (clearTimeout h s)"
  by (simp add: same_calls_def clearTimeout_def split: option.splits)

lemma same_calls_ws_do [simp]: "same_calls s (ws_do h op s)"
  by (simp add: same_calls_def ws_do_def)

lemma same_calls_resolve_signal [simp]: "same_calls s (resolve_signal p s)"
  by (simp add: same_calls_def resolve_signal_def)

lemma same_calls_handleClose [simp]: "same_calls s (handleClose s)"
  by (simp add: same_calls_def handleClose_def Let_def getNextReconnectInterval_def
      setTimeout_def clearTimeout_def emit_def split: option.splits)

lemma same_calls_resetPingTimeout [simp]: "same_calls s (resetPingTimeout s)"
  by (simp add: same_calls_def resetPingTimeout_def Let_def setTimeout_def clearTimeout_def
      split: option.splits)

lemma same_calls_resetConnectionTimeout [simp]:
  "same_calls s (resetConnectionTimeout (Cb_close_ws h) s)"
  by (simp add: same_calls_def resetConnectionTimeout_def Let_def setTimeout_def clearTimeout_def
      split: option.splits)

lemma same_calls_send [simp]: "same_calls s (state_of (send d f s))"
  by (simp add: same_calls_def send_def emit_def ws_do_def split: option.splits)

lemma same_calls_bang [simp]: "same_calls s (state_of (bang Not_session s))"
  by (simp add: bang_def)

lemma same_calls_close [simp]: "same_calls s (close s)"
  by (simp add: same_calls_def close_def ws_do_def clearTimeout_def split: option.splits)

lemma same_calls_unspool_catch [simp]: "same_calls s (unspool_catch s)"
  unfolding unspool_catch_def
  by (rule same_calls_trans [OF same_calls_emit same_calls_close])

lemma same_calls_unspool_settled [simp]: "same_calls s (unspool_settled r s)"
proof (cases r)
  case (Resolved v)
  have "same_calls s (unspool_catch (emit (AuthResult v) s))"
    by (rule same_calls_trans [OF same_calls_emit same_calls_unspool_catch])
  with Resolved show ?thesis by (simp add: unspool_settled_def bang_def)
next
  case (Rejected x)
  then show ?thesis by (simp add: unspool_settled_def)
qed

lemma same_calls_ping_settled [simp]: "same_calls s (ping_settled h r s)"
proof -
  have "same_calls s (handleClose (ws_do h Op_close (emit (Error TimeoutError) s)))"
    by (rule same_calls_trans [OF same_calls_emit
          same_calls_trans [OF same_calls_ws_do same_calls_handleClose]])
  then show ?thesis
    by (simp add: ping_settled_def split: settled.splits rejection.splits)
qed

lemma same_calls_probes: "same_calls s (s\<lparr>probes := x\<rparr>)"
  by (simp add: same_calls_def)

lemma same_calls_probe_ponged [simp]: "same_calls s (probe_ponged k s)"
  using same_calls_trans [OF same_calls_probes same_calls_ping_settled]
  by (simp add: probe_ponged_def split: option.splits)

lemma same_calls_probe_timed_out [simp]: "same_calls s (probe_timed_out k s)"
  using same_calls_trans [OF same_calls_probes same_calls_ping_settled]
  by (simp add: probe_timed_out_def split: option.splits)

lemma same_calls_boot [simp]: "same_calls s (boot s)"
  by (simp add: same_calls_def boot_def getAddress_def ws_do_def resetConnectionTimeout_def
      setTimeout_def clearTimeout_def Let_def split: option.splits)

lemma same_calls_on_open [simp]: "same_calls s (state_of (on_open h s))"
  by (simp add: on_open_def whilstSameSocket_def split: global_self.splits)

lemma same_calls_on_close [simp]: "same_calls s (state_of (on_close h s))"
  by (simp add: on_close_def whilstSameSocket_def split: global_self.splits receiver.splits)

lemma same_calls_on_error [simp]: "same_calls s (state_of (on_error h e s))"
proof -
  have "same_calls s (ws_do h Op_close (emit (Error (TransportError e)) s))"
    by (rule same_calls_trans [OF same_calls_emit same_calls_ws_do])
  then show ?thesis
    by (simp add: on_error_def whilstSameSocket_def split: global_self.splits)
qed

lemma same_calls_on_pong_fold:
  "same_calls s (fold (\<lambda>k s'. if probes s' k = Some h then probe_ponged k s' else s') ks s)"
proof (induction ks arbitrary: s)
  case Nil
  then show ?case by simp
next
  case (Cons k ks)
  show ?case
    using Cons.IH [of "probe_ponged k s"] Cons.IH [of s]
      same_calls_trans [OF same_calls_probe_ponged, of k s]
    by auto
qed

lemma same_calls_on_pong [simp]: "same_calls s (on_pong h s)"
  unfolding on_pong_def by (rule same_calls_on_pong_fold)

subsection \<open>Operations on the registry\<close>

lemma keeps_done:
  assumes c: "calls s i = Some c"
    and nd: "\<And>r'. p_stage c \<noteq> Done r'"
    and j: "(r = Rejected Rej_timeout \<and> replies s (string_of_nat i) = None \<and> \<not> p_noReply c)
         \<or> (r = Resolved None \<and> p_noReply c)
         \<or> (p_reply c = Some r \<and> \<not> p_noReply c)"
  shows "keeps ps s (s\<lparr>calls := (calls s)(i \<mapsto> c\<lparr>p_stage := Done r\<rparr>)\<rparr>)"
  unfolding keeps_def
proof (intro impI conjI allI)
  let ?s' = "s\<lparr>calls := (calls s)(i \<mapsto> c\<lparr>p_stage := Done r\<rparr>)\<rparr>"
  assume g: "good ps s"
  then have g': "keys_ok s" "ids_ok s" "replies_ok ps s" "done_ok s" "racing_ok s" "timers_ok s"
    by (simp_all add: good_def)
  have 1: "keys_ok ?s'" using g'(1) by (simp add: keys_ok_def)
  have 2: "ids_ok ?s'" using g'(2) c by (auto simp: ids_ok_def)
  have 3: "replies_ok ps ?s'" using g'(3) c by (auto simp: replies_ok_def)
  have 4: "done_ok ?s'" using g'(4) c j by (auto simp: done_ok_def)
  have 5: "racing_ok ?s'" using g'(5) by (auto simp: racing_ok_def)
  have 6: "timers_ok ?s'"
    unfolding timers_ok_def
  proof (intro allI impI)
    fix t k d assume "timers ?s' t = Some (Cb_reject_timeout k, d)"
    then have "timers s t = Some (Cb_reject_timeout k, d)" by simp
    with g'(6) obtain c' where c': "calls s k = Some c'" "\<not> p_noReply c'" "d = call_delay (p_timeout c') s"
      unfolding timers_ok_def by blast
    show "\<exists>c. calls ?s' k = Some c \<and> \<not> p_noReply c \<and> d = call_delay (p_timeout c) ?s'"
      using c c' by (cases "k = i") simp_all
  qed
  show "good ps ?s'" using 1 2 3 4 5 6 by (simp add: good_def)
  fix j r' assume "settlement s j = Some r'"
  then show "settlement ?s' j = Some r'"
    using c nd by (auto simp: settlement_def split: option.splits stage.splits)
qed

lemma keeps_settle:
  assumes c: "calls s i = Some c"
    and nd: "\<And>r'. p_stage c \<noteq> Done r'"
    and j: "(r = Rejected Rej_timeout \<and> replies s (string_of_nat i) = None \<and> \<not> p_noReply c)
         \<or> (r = Resolved None \<and> p_noReply c)
         \<or> (p_reply c = Some r \<and> \<not> p_noReply c)"
  shows "keeps ps s (settle i r s)"
proof -
  let ?s1 = "s\<lparr>calls := (calls s)(i \<mapsto> c\<lparr>p_stage := Done r\<rparr>)\<rparr>"
  have k: "keeps ps s ?s1" using c nd j by (rule keeps_done)
  have "same_calls ?s1 (settle i r s)"
    using c by (simp add: settle_def Let_def split: origin.splits)
  then show ?thesis using k by (blast intro: keeps_trans same_calls_keeps)
qed

lemma keeps_racing:
  assumes c: "calls s i = Some c"
    and nd: "\<And>r'. p_stage c \<noteq> Done r'"
    and nr: "\<not> p_noReply c"
  shows "keeps ps s
     ((snd (setTimeout (Cb_reject_timeout i) (call_delay (p_timeout c) s) s))
        \<lparr>calls := (calls s)(i \<mapsto> c\<lparr>p_stage := Racing (timerNo s)\<rparr>)\<rparr>)"
  unfolding keeps_def
proof (intro impI conjI allI)
  let ?s' = "(snd (setTimeout (Cb_reject_timeout i) (call_delay (p_timeout c) s) s))
        \<lparr>calls := (calls s)(i \<mapsto> c\<lparr>p_stage := Racing (timerNo s)\<rparr>)\<rparr>"
  assume g: "good ps s"
  then have g': "keys_ok s" "ids_ok s" "replies_ok ps s" "done_ok s" "racing_ok s" "timers_ok s"
    by (simp_all add: good_def)
  have 1: "keys_ok ?s'" using g'(1) by (simp add: keys_ok_def setTimeout_def)
  have 2: "ids_ok ?s'" using g'(2) c by (auto simp: ids_ok_def setTimeout_def)
  have 3: "replies_ok ps ?s'" using g'(3) c by (auto simp: replies_ok_def setTimeout_def)
  have 4: "done_ok ?s'" using g'(4) c by (auto simp: done_ok_def setTimeout_def)
  have 5: "racing_ok ?s'" using g'(5) c nr by (auto simp: racing_ok_def setTimeout_def)
  have 6: "timers_ok ?s'"
    unfolding timers_ok_def
  proof (intro allI impI)
    fix t k d assume a: "timers ?s' t = Some (Cb_reject_timeout k, d)"
    show "\<exists>c. calls ?s' k = Some c \<and> \<not> p_noReply c \<and> d = call_delay (p_timeout c) ?s'"
    proof (cases "t = timerNo s")
      case True
      with a have "k = i" "d = call_delay (p_timeout c) s" by (simp_all add: setTimeout_def)
      then show ?thesis using nr by (simp add: setTimeout_def)
    next
      case False
      with a have "timers s t = Some (Cb_reject_timeout k, d)" by (simp add: setTimeout_def)
      with g'(6) obtain c' where c': "calls s k = Some c'" "\<not> p_noReply c'" "d = call_delay (p_timeout c') s"
        unfolding timers_ok_def by blast
      show ?thesis using c c' by (cases "k = i") (simp_all add: setTimeout_def)
    qed
  qed
  show "good ps ?s'" using 1 2 3 4 5 6 by (simp add: good_def)
  fix j r' assume "settlement s j = Some r'"
  then show "settlement ?s' j = Some r'"
    using c nd by (auto simp: settlement_def setTimeout_def split: option.splits stage.splits)
qed

lemma keeps_call_then:
  assumes c: "calls s i = Some c" and nd: "\<And>r'. p_stage c \<noteq> Done r'"
  shows "keeps ps s (call_then i s)"
proof (cases "p_noReply c")
  case True
  then have "keeps ps s (settle i (Resolved None) s)"
    using c nd by (intro keeps_settle) auto
  with True c show ?thesis by (simp add: call_then_def)
next
  case False
  with keeps_racing [OF c nd False, of ps] c show ?thesis
    by (simp add: call_then_def Let_def setTimeout_def)
qed

lemma keeps_replies_removed:
  "keeps ps s (s\<lparr>replies := (replies s)(k := None)\<rparr>)"
  unfolding keeps_def good_def keys_ok_def ids_ok_def replies_ok_def done_ok_def racing_ok_def
    timers_ok_def settlement_def
  by (simp add: ) blast

lemma keeps_timeout_fired: "keeps ps s (timeout_fired i s)"
proof (cases "calls s i")
  case None
  then show ?thesis by (simp add: timeout_fired_def)
next
  case (Some c)
  show ?thesis
  proof (cases "\<exists>t. p_stage c = Racing t \<and> p_reply c = None")
    case False
    with Some show ?thesis by (auto simp: timeout_fired_def split: stage.splits)
  next
    case True
    then obtain t where t: "p_stage c = Racing t" "p_reply c = None" by blast
    let ?s1 = "s\<lparr>replies := (replies s)(string_of_nat i := None)\<rparr>"
    have k1: "keeps ps s ?s1" by (rule keeps_replies_removed)
    have k2: "good ps s \<Longrightarrow> keeps ps ?s1 (settle i (Rejected Rej_timeout) ?s1)"
    proof -
      assume g: "good ps s"
      then have "racing_ok s" by (simp add: good_def)
      with Some t have nr: "\<not> p_noReply c" by (auto simp: racing_ok_def)
      show ?thesis
        by (rule keeps_settle [where c = c]) (use Some t nr in simp_all)
    qed
    have "keeps ps s (settle i (Rejected Rej_timeout) ?s1)"
      using k1 k2 unfolding keeps_def by blast
    with Some t show ?thesis by (simp add: timeout_fired_def)
  qed
qed

lemma keeps_microtask: "keeps ps s (microtask i s)"
proof (cases "calls s i")
  case None
  then show ?thesis by (simp add: microtask_def)
next
  case (Some c)
  show ?thesis
  proof (cases "p_stage c")
    case Queued
    with Some keeps_call_then [OF Some, of ps] show ?thesis by (simp add: microtask_def)
  next
    case (AwaitSend p)
    with Some keeps_call_then [OF Some, of ps] show ?thesis by (simp add: microtask_def)
  next
    case (Racing t)
    show ?thesis
    proof (cases "p_reply c")
      case None
      with Some Racing show ?thesis by (simp add: microtask_def)
    next
      case (Some r)
      have "good ps s \<Longrightarrow> keeps ps s (settle i r s)"
      proof -
        assume "good ps s"
        then have "racing_ok s" by (simp add: good_def)
        with \<open>calls s i = Some c\<close> Racing have nr: "\<not> p_noReply c" by (auto simp: racing_ok_def)
        show ?thesis
          by (rule keeps_settle [where c = c]) (use \<open>calls s i = Some c\<close> Racing Some nr in simp_all)
      qed
      then have "keeps ps s (settle i r s)" unfolding keeps_def by blast
      with \<open>calls s i = Some c\<close> Racing Some show ?thesis by (simp add: microtask_def)
    qed
  next
    case (Done r)
    with Some show ?thesis by (simp add: microtask_def)
  qed
qed

lemma keeps_reply_handled:
  assumes r: "replies s k = Some i" and p: "p \<in> set ps" and f: "is_reply_for i p"
  shows "keeps ps s ((Reply_handle i p s)\<lparr>replies := (replies s)(k := None)\<rparr>)"
  unfolding keeps_def
proof (intro impI conjI allI)
  let ?s' = "(Reply_handle i p s)\<lparr>replies := (replies s)(k := None)\<rparr>"
  assume g: "good ps s"
  then have g': "keys_ok s" "ids_ok s" "replies_ok ps s" "done_ok s" "racing_ok s" "timers_ok s"
    by (simp_all add: good_def)
  have k: "k = string_of_nat i" using g'(1) r by (simp add: keys_ok_def)
  have cs: "calls ?s' = calls s \<or>
      (\<exists>c. calls s i = Some c \<and> p_reply c = None
        \<and> calls ?s' = (calls s)(i \<mapsto> c\<lparr>p_reply := Some (reply_outcome p)\<rparr>))"
    by (auto simp: Reply_handle_def split: option.splits)
  have o: "callNo ?s' = callNo s" "timers ?s' = timers s" "callTimeout ?s' = callTimeout s"
    "replies ?s' = (replies s)(k := None)"
    by (simp_all add: Reply_handle_def split: option.splits)
  have 1: "keys_ok ?s'" using g'(1) by (simp add: keys_ok_def o)
  have 2: "ids_ok ?s'" using g'(2) cs unfolding ids_ok_def o by (auto split: if_splits)
  have 3: "replies_ok ps ?s'"
    unfolding replies_ok_def
  proof (intro allI impI)
    fix j c r' assume a: "calls ?s' j = Some c \<and> p_reply c = Some r'"
    from cs show "\<exists>p\<in>set ps. is_reply_for j p \<and> r' = reply_outcome p"
    proof
      assume "calls ?s' = calls s"
      with a g'(3) show ?thesis unfolding replies_ok_def by (simp add: ) blast
    next
      assume "\<exists>c. calls s i = Some c \<and> p_reply c = None
        \<and> calls ?s' = (calls s)(i \<mapsto> c\<lparr>p_reply := Some (reply_outcome p)\<rparr>)"
      then obtain c0 where c0: "calls s i = Some c0"
        "calls ?s' = (calls s)(i \<mapsto> c0\<lparr>p_reply := Some (reply_outcome p)\<rparr>)" by blast
      show ?thesis
      proof (cases "j = i")
        case True
        with a c0 have "r' = reply_outcome p" by auto
        with p f True show ?thesis by blast
      next
        case False
        with a c0 have "calls s j = Some c \<and> p_reply c = Some r'" by simp
        with g'(3) show ?thesis unfolding replies_ok_def by blast
      qed
    qed
  qed
  have 4: "done_ok ?s'"
    unfolding done_ok_def
  proof (intro allI impI)
    fix j c r' assume a: "calls ?s' j = Some c \<and> p_stage c = Done r'"
    from cs show "(r' = Rejected Rej_timeout \<and> replies ?s' (string_of_nat j) = None \<and> \<not> p_noReply c)
         \<or> (r' = Resolved None \<and> p_noReply c) \<or> (p_reply c = Some r' \<and> \<not> p_noReply c)"
    proof
      assume "calls ?s' = calls s"
      with a g'(4) show ?thesis unfolding done_ok_def o by (simp add: ) blast
    next
      assume "\<exists>c. calls s i = Some c \<and> p_reply c = None
        \<and> calls ?s' = (calls s)(i \<mapsto> c\<lparr>p_reply := Some (reply_outcome p)\<rparr>)"
      then obtain c0 where c0: "calls s i = Some c0" "p_reply c0 = None"
        "calls ?s' = (calls s)(i \<mapsto> c0\<lparr>p_reply := Some (reply_outcome p)\<rparr>)" by blast
      show ?thesis
      proof (cases "j = i")
        case False
        with a c0 have "calls s j = Some c \<and> p_stage c = Done r'" by simp
        with g'(4) show ?thesis unfolding done_ok_def o by (simp add: ) blast
      next
        case True
        with a c0 have c: "c = c0\<lparr>p_reply := Some (reply_outcome p)\<rparr>" "p_stage c0 = Done r'"
          by auto
        from g'(4) c0(1) c(2)
        have "(r' = Rejected Rej_timeout \<and> replies s (string_of_nat i) = None \<and> \<not> p_noReply c0)
         \<or> (r' = Resolved None \<and> p_noReply c0) \<or> (p_reply c0 = Some r' \<and> \<not> p_noReply c0)"
          unfolding done_ok_def by blast
        with r k c0(2) have "r' = Resolved None \<and> p_noReply c0" by auto
        with c show ?thesis by simp
      qed
    qed
  qed
  have 5: "racing_ok ?s'" using g'(5) cs unfolding racing_ok_def by (auto split: if_splits)
  have 6: "timers_ok ?s'"
    unfolding timers_ok_def
  proof (intro allI impI)
    fix t j d assume "timers ?s' t = Some (Cb_reject_timeout j, d)"
    then have "timers s t = Some (Cb_reject_timeout j, d)" by (simp add: o)
    with g'(6) obtain c' where c': "calls s j = Some c'" "\<not> p_noReply c'" "d = call_delay (p_timeout c') s"
      unfolding timers_ok_def by blast
    have cd: "call_delay x ?s' = call_delay x s" for x
      by (rule call_delay_cong) (simp add: o)
    from cs c' show "\<exists>c. calls ?s' j = Some c \<and> \<not> p_noReply c \<and> d = call_delay (p_timeout c) ?s'"
      unfolding cd by (cases "j = i") auto
  qed
  show "good ps ?s'" using 1 2 3 4 5 6 by (simp add: good_def)
  fix j r' assume "settlement s j = Some r'"
  then show "settlement ?s' j = Some r'"
    using cs unfolding settlement_def by (auto split: option.splits stage.splits if_splits)
qed

lemma keeps_registered:
  "keeps ps s
     (s\<lparr>callNo := callNo s + 1,
         replies := (replies s)(string_of_nat (callNo s) \<mapsto> callNo s),
         calls := (calls s)(callNo s \<mapsto> \<lparr>p_stage = st, p_reply = None, p_noReply = nr,
            p_timeout = tm, p_origin = org\<rparr>)\<rparr>)"
  if "\<And>r. st \<noteq> Done r" and "\<And>t. st \<noteq> Racing t"
  unfolding keeps_def
proof (intro impI conjI allI)
  let ?c = "\<lparr>p_stage = st, p_reply = None, p_noReply = nr, p_timeout = tm, p_origin = org\<rparr>"
  let ?s' = "s\<lparr>callNo := callNo s + 1,
         replies := (replies s)(string_of_nat (callNo s) \<mapsto> callNo s),
         calls := (calls s)(callNo s \<mapsto> ?c)\<rparr>"
  assume g: "good ps s"
  then have g': "keys_ok s" "ids_ok s" "replies_ok ps s" "done_ok s" "racing_ok s" "timers_ok s"
    by (simp_all add: good_def)
  have fresh: "calls s (callNo s) = None"
    using g'(2) unfolding ids_ok_def by (cases "calls s (callNo s)") auto
  have 1: "keys_ok ?s'" using g'(1) unfolding keys_ok_def by (auto simp: less_Suc_eq)
  have 2: "ids_ok ?s'" using g'(2) unfolding ids_ok_def by (auto simp: less_Suc_eq)
  have 3: "replies_ok ps ?s'" using g'(3) unfolding replies_ok_def by auto
  have 4: "done_ok ?s'"
    unfolding done_ok_def
  proof (intro allI impI)
    fix j c r' assume a: "calls ?s' j = Some c \<and> p_stage c = Done r'"
    with that have ne: "j \<noteq> callNo s" by auto
    with a have b: "calls s j = Some c \<and> p_stage c = Done r'" by simp
    with g'(2) have "j < callNo s" unfolding ids_ok_def by blast
    then have "string_of_nat j \<noteq> string_of_nat (callNo s)"
      using string_of_nat_inj by fastforce
    with g'(4) b
    show "(r' = Rejected Rej_timeout \<and> replies ?s' (string_of_nat j) = None \<and> \<not> p_noReply c)
         \<or> (r' = Resolved None \<and> p_noReply c) \<or> (p_reply c = Some r' \<and> \<not> p_noReply c)"
      unfolding done_ok_def by simp
  qed
  have 5: "racing_ok ?s'" using g'(5) that unfolding racing_ok_def by auto
  have 6: "timers_ok ?s'"
    unfolding timers_ok_def
  proof (intro allI impI)
    fix t j d assume "timers ?s' t = Some (Cb_reject_timeout j, d)"
    then have "timers s t = Some (Cb_reject_timeout j, d)" by simp
    with g'(6) obtain c' where c': "calls s j = Some c'" "\<not> p_noReply c'" "d = call_delay (p_timeout c') s"
      unfolding timers_ok_def by blast
    with fresh have "j \<noteq> callNo s" by auto
    with c' show "\<exists>c. calls ?s' j = Some c \<and> \<not> p_noReply c \<and> d = call_delay (p_timeout c) ?s'"
      by simp
  qed
  show "good ps ?s'" using 1 2 3 4 5 6 by (simp add: good_def)
  fix j r' assume "settlement s j = Some r'"
  then show "settlement ?s' j = Some r'"
    using fresh unfolding settlement_def by (auto split: option.splits stage.splits)
qed

lemma keeps_reply_packet:
  assumes r: "replies s k = Some i" and p: "p \<in> set ps"
    and ty: "get_prop p ''type'' = Inr (Some (JStr ''reply''))"
    and k: "k = js_to_string (field p ''id'')"
  shows "keeps ps s ((Reply_handle i p s)\<lparr>replies := (replies s)(k := None)\<rparr>)"
proof (cases "good ps s")
  case False
  then show ?thesis by (simp add: keeps_def)
next
  case True
  then have "keys_ok s" by (simp add: good_def)
  with r have "k = string_of_nat i" by (simp add: keys_ok_def)
  with ty k have "is_reply_for i p" by (simp add: is_reply_for_def)
  with r p show ?thesis by (rule keeps_reply_handled)
qed

lemma keeps_registered_only:
  "keeps ps s
     (s\<lparr>callNo := callNo s + 1,
         replies := (replies s)(string_of_nat (callNo s) \<mapsto> callNo s)\<rparr>)"
  unfolding keeps_def
proof (intro impI conjI allI)
  let ?s' = "s\<lparr>callNo := callNo s + 1,
         replies := (replies s)(string_of_nat (callNo s) \<mapsto> callNo s)\<rparr>"
  assume g: "good ps s"
  then have g': "keys_ok s" "ids_ok s" "replies_ok ps s" "done_ok s" "racing_ok s" "timers_ok s"
    by (simp_all add: good_def)
  have 1: "keys_ok ?s'" using g'(1) unfolding keys_ok_def by (auto simp: less_Suc_eq)
  have 2: "ids_ok ?s'" using g'(2) unfolding ids_ok_def by (auto simp: less_Suc_eq)
  have 3: "replies_ok ps ?s'" using g'(3) unfolding replies_ok_def by auto
  have 4: "done_ok ?s'"
    unfolding done_ok_def
  proof (intro allI impI)
    fix j c r' assume a: "calls ?s' j = Some c \<and> p_stage c = Done r'"
    then have b: "calls s j = Some c \<and> p_stage c = Done r'" by simp
    with g'(2) have "j < callNo s" unfolding ids_ok_def by blast
    then have "string_of_nat j \<noteq> string_of_nat (callNo s)"
      using string_of_nat_inj by fastforce
    with g'(4) b
    show "(r' = Rejected Rej_timeout \<and> replies ?s' (string_of_nat j) = None \<and> \<not> p_noReply c)
         \<or> (r' = Resolved None \<and> p_noReply c) \<or> (p_reply c = Some r' \<and> \<not> p_noReply c)"
      unfolding done_ok_def by simp
  qed
  have 5: "racing_ok ?s'" using g'(5) unfolding racing_ok_def by auto
  have 6: "timers_ok ?s'" using g'(6) unfolding timers_ok_def by simp
  show "good ps ?s'" using 1 2 3 4 5 6 by (simp add: good_def)
  fix j r' assume "settlement s j = Some r'"
  then show "settlement ?s' j = Some r'" unfolding settlement_def by simp
qed

lemma keeps_call: "keeps ps s (state_of (call m a opts org s))"
proof (cases "good ps s")
  case False
  then show ?thesis by (simp add: keeps_def)
next
  case True
  then have "ids_ok s" by (simp add: good_def)
  then have fresh: "calls s (callNo s) = None"
    unfolding ids_ok_def by (cases "calls s (callNo s)") auto
  let ?i = "callNo s"
  let ?d = "\<lparr>frame_type = ''method'', frame_method = m, frame_arguments = a, frame_id = ?i\<rparr>"
  let ?reg = "\<lambda>st. s\<lparr>callNo := callNo s + 1,
         replies := (replies s)(string_of_nat (callNo s) \<mapsto> callNo s),
         calls := (calls s)(callNo s \<mapsto> \<lparr>p_stage = st, p_reply = None,
            p_noReply = opt_noReply opts, p_timeout = opt_timeout opts, p_origin = org\<rparr>)\<rparr>"
  let ?only = "s\<lparr>callNo := callNo s + 1,
         replies := (replies s)(string_of_nat (callNo s) \<mapsto> callNo s)\<rparr>"
  have q: "keeps ps s (?reg Queued)" by (rule keeps_registered) simp_all
  have w: "keeps ps s (?reg (AwaitSend p))" for p by (rule keeps_registered) simp_all
  have o: "keeps ps s ?only" by (rule keeps_registered_only)
  consider (thrown) "(isConnected s \<or> opt_force opts)" "ws s = None"
    | (sent) h where "(isConnected s \<or> opt_force opts)" "ws s = Some h"
    | (spooled) "\<not> (isConnected s \<or> opt_force opts)" "m \<noteq> authMethod"
    | (dropped) "\<not> (isConnected s \<or> opt_force opts)" "m = authMethod"
    by (cases "ws s") auto
  then show ?thesis
  proof cases
    case thrown
    have "same_calls ?only (state_of (call m a opts org s))"
      using thrown fresh
      by (auto simp: same_calls_def call_def send_def isConnected_def Let_def)
    with o show ?thesis by (blast intro: keeps_trans same_calls_keeps)
  next
    case (sent h)
    have "same_calls (?reg Queued) (state_of (call m a opts org s))"
      using sent
      by (auto simp: same_calls_def call_def send_def isConnected_def Let_def emit_def ws_do_def)
    with q show ?thesis by (blast intro: keeps_trans same_calls_keeps)
  next
    case spooled
    have "same_calls (?reg (AwaitSend (promiseNo s))) (state_of (call m a opts org s))"
      using spooled
      by (auto simp: same_calls_def call_def send_def isConnected_def Let_def emit_def)
    with w show ?thesis by (blast intro: keeps_trans same_calls_keeps)
  next
    case dropped
    have "same_calls (?reg Queued) (state_of (call m a opts org s))"
      using dropped
      by (auto simp: same_calls_def call_def send_def isConnected_def Let_def)
    with q show ?thesis by (blast intro: keeps_trans same_calls_keeps)
  qed
qed

lemma keeps_unspool: "keeps ps s (state_of (unspool s))"
proof (cases "authpacket s")
  case None
  then show ?thesis by (simp add: unspool_def bang_def)
next
  case (Some tuple)
  with keeps_call [of ps s authMethod tuple auth_options ByUnspool] show ?thesis
    by (simp add: unspool_def)
qed

lemma keeps_auth: "keeps ps s (state_of (auth c u k s))"
proof -
  let ?s1 = "s\<lparr>authpacket := Some [c, u, k]\<rparr>"
  have a: "keeps ps s ?s1" by (rule same_calls_keeps) (simp add: same_calls_def)
  have "keeps ps ?s1 (state_of (call ''auth'' [c, u, k] no_options ByUser ?s1))"
    by (rule keeps_call)
  with a have "keeps ps s (state_of (call ''auth'' [c, u, k] no_options ByUser ?s1))"
    by (rule keeps_trans)
  with a show ?thesis by (simp add: auth_def Let_def)
qed

lemma keeps_welcome_listener: "keeps ps s (state_of (welcome_listener s))"
  unfolding welcome_listener_def
  by (rule keeps_trans [OF same_calls_keeps [OF same_calls_resetPingTimeout] keeps_unspool])

lemma keeps_run_welcome: "keeps ps s (state_of (run_welcome n s))"
proof (induction n arbitrary: s)
  case 0
  then show ?case by simp
next
  case (Suc n)
  let ?s1 = "s\<lparr>welcomeListeners := welcomeListeners s - 1\<rparr>"
  have a: "keeps ps s ?s1" by (rule same_calls_keeps) (simp add: same_calls_def)
  have b: "keeps ps ?s1 (state_of (welcome_listener ?s1))" by (rule keeps_welcome_listener)
  show ?case
  proof (cases "welcome_listener ?s1")
    case (Returns v s')
    with a b Suc.IH [of s'] show ?thesis by (auto intro: keeps_trans)
  next
    case (Throws e s')
    with a b show ?thesis by (auto intro: keeps_trans)
  qed
qed

lemma keeps_emit_named: "keeps ps s (state_of (emit_named name payload s))"
proof -
  let ?s1 = "emit (Named name payload) s"
  have a: "keeps ps s ?s1" by (rule same_calls_keeps) simp
  have b: "keeps ps s (state_of (run_welcome (welcomeListeners ?s1) ?s1))"
    by (rule keeps_trans [OF a keeps_run_welcome])
  show ?thesis
  proof (cases "name = ''WelcomeEvent''")
    case True
    with b show ?thesis by (simp add: emit_named_def Let_def)
  next
    case False
    with a show ?thesis by (simp add: emit_named_def Let_def)
  qed
qed

lemma keeps_parsePacket:
  assumes "\<And>p. d = Some p \<Longrightarrow> f \<noteq> Some True \<Longrightarrow> p \<in> set ps"
  shows "keeps ps s (state_of (parsePacket d f s))"
proof (cases "f = Some True \<or> d = None")
  case True
  then show ?thesis
    by (auto simp: parsePacket_def intro: same_calls_keeps)
next
  case False
  then obtain p where d: "d = Some p" and f: "f \<noteq> Some True" by auto
  have p: "p \<in> set ps" using assms d f by simp
  let ?s1 = "emit (Packet p) s"
  have a: "keeps ps s ?s1" by (rule same_calls_keeps) simp
  show ?thesis
  proof (cases "get_prop p ''type''")
    case (Inl e)
    with a d f show ?thesis by (simp add: parsePacket_def Let_def)
  next
    case (Inr ty)
    consider (reply) "ty = Some (JStr ''reply'')"
      | (event) "ty \<noteq> Some (JStr ''reply'')" "ty = Some (JStr ''event'')"
      | (other) "ty \<noteq> Some (JStr ''reply'')" "ty \<noteq> Some (JStr ''event'')"
      by blast
    then show ?thesis
    proof cases
      case reply
      let ?k = "js_to_string (field p ''id'')"
      show ?thesis
      proof (cases "replies ?s1 ?k")
        case None
        have "keeps ps s (emit (Error (NoMethodHandlerError ''No handler for reply ID.'')) ?s1)"
          by (rule keeps_trans [OF a]) (rule same_calls_keeps, simp)
        with a None d f Inr reply show ?thesis
          by (simp add: parsePacket_def Let_def)
      next
        case (Some i)
        have "keeps ps ?s1 ((Reply_handle i p ?s1)\<lparr>replies := (replies ?s1)(?k := None)\<rparr>)"
          using Some p Inr reply by (intro keeps_reply_packet) simp_all
        with a have "keeps ps s ((Reply_handle i p ?s1)\<lparr>replies := (replies ?s1)(?k := None)\<rparr>)"
          by (rule keeps_trans)
        with Some d f Inr reply show ?thesis
          by (simp add: parsePacket_def Let_def)
      qed
    next
      case event
      have "keeps ps s (state_of (emit_named (js_to_string (field p ''event'')) (field p ''data'') ?s1))"
        by (rule keeps_trans [OF a keeps_emit_named])
      with d f Inr event show ?thesis by (simp add: parsePacket_def Let_def)
    next
      case other
      have "keeps ps s (emit (Error (BadMessageError (''Unknown packet type '' @ js_to_string ty))) ?s1)"
        by (rule keeps_trans [OF a]) (rule same_calls_keeps, simp)
      with d f Inr other show ?thesis by (simp add: parsePacket_def Let_def)
    qed
  qed
qed

lemma keeps_ping: "keeps ps s (state_of (ping s))"
proof -
  let ?s1 = "clearTimeout (pingTimeoutHandle s) s"
  have a: "keeps ps s ?s1" by (rule same_calls_keeps) simp
  have b: "keeps ps s (state_of (call ''ping'' [] (ping_options ?s1) (ByPing h) ?s1))" for h
    by (rule keeps_trans [OF a keeps_call])
  have c: "keeps ps s (ws_do h Op_ping
       ((snd (setTimeout (Cb_reject_probe (probeNo ?s1)) (pingTimeout ?s1) ?s1))
          \<lparr>probes := (probes ?s1)(probeNo ?s1 \<mapsto> h), probeNo := probeNo ?s1 + 1\<rparr>))" for h
    by (rule keeps_trans [OF a]) (rule same_calls_keeps,
        simp add: same_calls_def ws_do_def setTimeout_def)
  show ?thesis
    using a b c
    by (simp add: ping_def Let_def setTimeout_def split: option.splits)
qed

lemma keeps_on_message:
  assumes "\<And>p. d = Some p \<Longrightarrow> f \<noteq> Some True \<Longrightarrow> p \<in> set ps"
  shows "keeps ps s (state_of (on_message h d f s))"
proof -
  have "keeps ps s (state_of (parsePacket d f (resetPingTimeout s)))"
    by (rule keeps_trans [OF same_calls_keeps [OF same_calls_resetPingTimeout]
          keeps_parsePacket [OF assms]])
  then show ?thesis
    by (simp add: on_message_def whilstSameSocket_def split: global_self.splits receiver.splits)
qed

lemma keeps_timer_fired: "keeps ps s (timer_fired t s)"
proof (cases "timers s t")
  case None
  then show ?thesis by (simp add: timer_fired_def)
next
  case (Some x)
  obtain cb d where x: "x = (cb, d)" by (cases x)
  let ?s1 = "s\<lparr>timers := (timers s)(t := None)\<rparr>"
  have a: "keeps ps s ?s1" by (rule same_calls_keeps) (simp add: same_calls_def)
  have "keeps ps ?s1 (case cb of
                Cb_ping \<Rightarrow> state_of (ping ?s1)
              | Cb_close_ws h \<Rightarrow> ws_do h Op_close ?s1
              | Cb_boot \<Rightarrow> boot ?s1
              | Cb_reject_timeout i \<Rightarrow> timeout_fired i ?s1
              | Cb_reject_probe k \<Rightarrow> probe_timed_out k ?s1)"
    by (cases cb) (simp_all add: keeps_ping keeps_timeout_fired same_calls_keeps)
  with a Some x show ?thesis
    by (simp add: timer_fired_def Let_def) (blast intro: keeps_trans)
qed

lemma keeps_step:
  assumes "set (packets_of e) \<subseteq> set ps"
  shows "keeps ps s (step e s)"
proof (cases e)
  case (Ev_parsePacket d f)
  with assms have "\<And>p. d = Some p \<Longrightarrow> f \<noteq> Some True \<Longrightarrow> p \<in> set ps" by auto
  then show ?thesis unfolding Ev_parsePacket by (simp add: keeps_parsePacket)
next
  case (Ev_message h d f)
  with assms have "\<And>p. d = Some p \<Longrightarrow> f \<noteq> Some True \<Longrightarrow> p \<in> set ps" by auto
  then show ?thesis unfolding Ev_message by (simp add: keeps_on_message)
qed (simp_all add: same_calls_keeps keeps_ping keeps_call keeps_auth keeps_unspool
       keeps_timer_fired keeps_microtask)

lemma keeps_run:
  assumes "set (inbound evs) \<subseteq> set ps"
  shows "keeps ps s (run evs s)"
  using assms
proof (induction evs arbitrary: s)
  case Nil
  then show ?case by (simp add: run_def)
next
  case (Cons e evs)
  from Cons.prems have 1: "set (packets_of e) \<subseteq> set ps" and 2: "set (inbound evs) \<subseteq> set ps"
    by (simp_all add: inbound_def)
  have "run (e # evs) s = run evs (step e s)" by (simp add: run_def)
  with keeps_trans [OF keeps_step [OF 1] Cons.IH [OF 2]] show ?case by simp
qed

lemma good_initial: "good ps (BeamSocket node self rnd addrs opts)"
  by (simp add: good_def keys_ok_def ids_ok_def replies_ok_def done_ok_def racing_ok_def
      timers_ok_def BeamSocket_def)

lemma good_reachable: "good (inbound evs) (run evs (BeamSocket node self rnd addrs opts))"
  using keeps_run [of evs "inbound evs"] good_initial unfolding keeps_def by blast

lemma run_append: "run (evs @ evs') s = run evs' (run evs s)"
  by (simp add: run_def)

lemma late_reply_is_anomaly:
  assumes "replies s (string_of_nat i) = None" and "is_reply_for i p"
  shows "parsePacket (Some p) None s =
     Returns () (emit (Error (NoMethodHandlerError ''No handler for reply ID.'')) (emit (Packet p) s))"
  using assms string_of_nat_not_inherited [of i]
  by (simp add: parsePacket_def is_reply_for_def Let_def emit_def)

lemma settlement_settle:
  assumes "calls s i = Some c"
  shows "settlement (settle i r s) i = Some r"
proof -
  let ?s1 = "s\<lparr>calls := (calls s)(i \<mapsto> c\<lparr>p_stage := Done r\<rparr>)\<rparr>"
  have "same_calls ?s1 (settle i r s)"
    using assms by (simp add: settle_def Let_def split: origin.splits)
  then have "settlement (settle i r s) i = settlement ?s1 i" by (rule same_calls_settlement)
  then show ?thesis by (simp add: settlement_def)
qed

subsection \<open>Timers of the races\<close>

lemma same_races_refl [simp]: "same_races s s"
  by (simp add: same_races_def)

lemma same_races_trans: "same_races s s' \<Longrightarrow> same_races s' s'' \<Longrightarrow> same_races s s''"
  by (simp add: same_races_def)

lemma call_kept_refl [simp]: "call_kept c c"
  by (simp add: call_kept_def)

lemma call_kept_trans: "call_kept c c' \<Longrightarrow> call_kept c' c'' \<Longrightarrow> call_kept c c''"
  by (simp add: call_kept_def)

lemma carries_refl [simp]: "carries ct s s"
  by (simp add: carries_def)

lemma carries_trans: "carries ct s s' \<Longrightarrow> carries ct s' s'' \<Longrightarrow> carries ct s s''"
  unfolding carries_def by (meson call_kept_trans)

lemma same_races_live:
  assumes "same_races s s'" and "live ct s"
  shows "live ct s'"
proof -
  from assms(2) have l: "callTimeout s = ct" "resolved s = []" "ids_ok s" "timer_ids_ok s" "race_armed s"
    by (simp_all add: live_def)
  from assms(1) l(4) have e: "calls s' = calls s" "callNo s' = callNo s"
    "callTimeout s' = callTimeout s" "resolved s' = resolved s" "timer_ids_ok s'"
    and tm: "\<And>t i d. timers s t = Some (Cb_reject_timeout i, d) \<Longrightarrow>
           timers s' t = Some (Cb_reject_timeout i, d)"
    by (simp_all add: same_races_def)
  have "ids_ok s'" using l(3) by (simp add: ids_ok_def e)
  moreover have "race_armed s'"
    using l(5) tm unfolding race_armed_def by (simp add: e call_delay_cong [OF e(3)])
  ultimately show ?thesis using l e by (simp add: live_def)
qed

lemma same_races_carries: "same_races s s' \<Longrightarrow> carries ct s s'"
  unfolding carries_def using same_races_live [of s s' ct] by (auto simp: same_races_def)

lemma same_races_emit [simp]: "same_races s (emit n s)"
  by (simp add: same_races_def emit_def timer_ids_ok_def)

lemma same_races_ws_do [simp]: "same_races s (ws_do h op s)"
  by (simp add: same_races_def ws_do_def timer_ids_ok_def)

lemma same_races_probes [simp]: "same_races s (s\<lparr>probes := x\<rparr>)"
  by (simp add: same_races_def timer_ids_ok_def)

lemma same_races_handleClose [simp]: "same_races s (handleClose s)"
  by (auto simp: same_races_def handleClose_def Let_def getNextReconnectInterval_def
      setTimeout_def clearTimeout_def emit_def timer_ids_ok_def split: option.splits
      dest: less_SucI)

lemma same_races_resetPingTimeout [simp]: "same_races s (resetPingTimeout s)"
  by (auto simp: same_races_def resetPingTimeout_def Let_def setTimeout_def clearTimeout_def
      timer_ids_ok_def split: option.splits dest: less_SucI)

lemma same_races_resetConnectionTimeout [simp]:
  "same_races s (resetConnectionTimeout (Cb_close_ws h) s)"
  by (auto simp: same_races_def resetConnectionTimeout_def Let_def setTimeout_def clearTimeout_def
      timer_ids_ok_def split: option.splits dest: less_SucI)

lemma same_races_send [simp]: "same_races s (state_of (send d f s))"
  by (simp add: same_races_def send_def emit_def ws_do_def timer_ids_ok_def split: option.splits)

lemma same_races_bang [simp]: "same_races s (state_of (bang Not_session s))"
  by (simp add: bang_def)

lemma same_races_close [simp]: "same_races s (close s)"
  by (auto simp: same_races_def close_def ws_do_def clearTimeout_def timer_ids_ok_def
      split: option.splits)

lemma same_races_boot [simp]: "same_races s (boot s)"
  by (auto simp: same_races_def boot_def getAddress_def ws_do_def resetConnectionTimeout_def
      setTimeout_def clearTimeout_def Let_def timer_ids_ok_def split: option.splits
      dest: less_SucI)


lemma same_races_unspool_catch [simp]: "same_races s (unspool_catch s)"
  unfolding unspool_catch_def
  by (rule same_races_trans [OF same_races_emit same_races_close])

lemma same_races_unspool_settled [simp]: "same_races s (unspool_settled r s)"
proof (cases r)
  case (Resolved v)
  have "same_races s (unspool_catch (emit (AuthResult v) s))"
    by (rule same_races_trans [OF same_races_emit same_races_unspool_catch])
  with Resolved show ?thesis by (simp add: unspool_settled_def bang_def)
next
  case (Rejected x)
  then show ?thesis by (simp add: unspool_settled_def)
qed

lemma same_races_ping_settled [simp]: "same_races s (ping_settled h r s)"
proof -
  have "same_races s (handleClose (ws_do h Op_close (emit (Error TimeoutError) s)))"
    by (rule same_races_trans [OF same_races_emit
          same_races_trans [OF same_races_ws_do same_races_handleClose]])
  then show ?thesis
    by (simp add: ping_settled_def split: settled.splits rejection.splits)
qed

lemma same_races_probe_ponged [simp]: "same_races s (probe_ponged k s)"
  using same_races_trans [OF same_races_probes same_races_ping_settled]
  by (simp add: probe_ponged_def split: option.splits)

lemma same_races_probe_timed_out [simp]: "same_races s (probe_timed_out k s)"
  using same_races_trans [OF same_races_probes same_races_ping_settled]
  by (simp add: probe_timed_out_def split: option.splits)

lemma same_races_on_open [simp]: "same_races s (state_of (on_open h s))"
  by (simp add: on_open_def whilstSameSocket_def split: global_self.splits)

lemma same_races_on_close [simp]: "same_races s (state_of (on_close h s))"
  by (simp add: on_close_def whilstSameSocket_def split: global_self.splits receiver.splits)

lemma same_races_on_error [simp]: "same_races s (state_of (on_error h e s))"
proof -
  have "same_races s (ws_do h Op_close (emit (Error (TransportError e)) s))"
    by (rule same_races_trans [OF same_races_emit same_races_ws_do])
  then show ?thesis
    by (simp add: on_error_def whilstSameSocket_def split: global_self.splits)
qed

lemma same_races_on_pong_fold:
  "same_races s (fold (\<lambda>k s'. if probes s' k = Some h then probe_ponged k s' else s') ks s)"
proof (induction ks arbitrary: s)
  case Nil
  then show ?case by simp
next
  case (Cons k ks)
  show ?case
    using Cons.IH [of "probe_ponged k s"] Cons.IH [of s]
      same_races_trans [OF same_races_probe_ponged, of k s]
    by auto
qed

lemma same_races_on_pong [simp]: "same_races s (on_pong h s)"
  unfolding on_pong_def by (rule same_races_on_pong_fold)

lemma same_races_settle_rest:
  assumes "calls s i = Some c"
  shows "same_races (s\<lparr>calls := (calls s)(i \<mapsto> c\<lparr>p_stage := Done r\<rparr>)\<rparr>) (settle i r s)"
  using assms by (simp add: settle_def Let_def split: origin.splits)

lemma carries_done:
  assumes c: "calls s i = Some c" and na: "\<And>p. p_stage c \<noteq> AwaitSend p"
  shows "carries ct s (s\<lparr>calls := (calls s)(i \<mapsto> c\<lparr>p_stage := Done r\<rparr>), replies := rp\<rparr>)"
  unfolding carries_def
proof (intro impI conjI allI)
  let ?s' = "s\<lparr>calls := (calls s)(i \<mapsto> c\<lparr>p_stage := Done r\<rparr>), replies := rp\<rparr>"
  assume l: "live ct s"
  then have l': "callTimeout s = ct" "resolved s = []" "ids_ok s" "timer_ids_ok s" "race_armed s"
    by (simp_all add: live_def)
  have 1: "ids_ok ?s'" using l'(3) c by (auto simp: ids_ok_def)
  have 2: "timer_ids_ok ?s'" using l'(4) by (simp add: timer_ids_ok_def)
  have 3: "race_armed ?s'" using l'(5) unfolding race_armed_def by auto
  show "live ct ?s'" using l' 1 2 3 by (simp add: live_def)
  fix j c' assume "calls s j = Some c'"
  then show "\<exists>c''. calls ?s' j = Some c'' \<and> call_kept c' c''"
    using c na by (cases "j = i") (simp_all add: call_kept_def)
qed

lemma carries_settle:
  assumes c: "calls s i = Some c" and na: "\<And>p. p_stage c \<noteq> AwaitSend p"
  shows "carries ct s (settle i r s)"
proof -
  let ?s1 = "s\<lparr>calls := (calls s)(i \<mapsto> c\<lparr>p_stage := Done r\<rparr>)\<rparr>"
  have "carries ct s (s\<lparr>calls := (calls s)(i \<mapsto> c\<lparr>p_stage := Done r\<rparr>), replies := replies s\<rparr>)"
    using c na by (rule carries_done)
  then have k: "carries ct s ?s1" by simp
  have "same_races ?s1 (settle i r s)" using c by (rule same_races_settle_rest)
  then show ?thesis using k by (blast intro: carries_trans same_races_carries)
qed

lemma carries_racing:
  assumes c: "calls s i = Some c" and na: "\<And>p. p_stage c \<noteq> AwaitSend p"
  shows "carries ct s
     ((snd (setTimeout (Cb_reject_timeout i) (call_delay (p_timeout c) s) s))
        \<lparr>calls := (calls s)(i \<mapsto> c\<lparr>p_stage := Racing (timerNo s)\<rparr>)\<rparr>)"
  unfolding carries_def
proof (intro impI conjI allI)
  let ?s' = "(snd (setTimeout (Cb_reject_timeout i) (call_delay (p_timeout c) s) s))
        \<lparr>calls := (calls s)(i \<mapsto> c\<lparr>p_stage := Racing (timerNo s)\<rparr>)\<rparr>"
  assume l: "live ct s"
  then have l': "callTimeout s = ct" "resolved s = []" "ids_ok s" "timer_ids_ok s" "race_armed s"
    by (simp_all add: live_def)
  have e: "call_delay x ?s' = call_delay x s" for x
    by (simp add: setTimeout_def call_delay_def split: option.splits)
  have 1: "ids_ok ?s'" using l'(3) c by (auto simp: ids_ok_def setTimeout_def)
  have 2: "timer_ids_ok ?s'"
    using l'(4) by (auto simp: timer_ids_ok_def setTimeout_def dest: less_SucI)
  have 3: "race_armed ?s'"
    unfolding race_armed_def
  proof (intro allI impI, elim conjE)
    fix j c' t assume a: "calls ?s' j = Some c'" "p_stage c' = Racing t" "p_reply c' = None"
    show "timers ?s' t = Some (Cb_reject_timeout j, call_delay (p_timeout c') ?s')"
    proof (cases "j = i")
      case True
      with a show ?thesis unfolding e by (auto simp: setTimeout_def)
    next
      case False
      with a have b: "calls s j = Some c'" by (simp add: setTimeout_def)
      with l'(5) a have t: "timers s t = Some (Cb_reject_timeout j, call_delay (p_timeout c') s)"
        unfolding race_armed_def by blast
      with l'(4) have "t < timerNo s" unfolding timer_ids_ok_def by blast
      with t show ?thesis unfolding e by (simp add: setTimeout_def)
    qed
  qed
  show "live ct ?s'" using l' 1 2 3 by (simp add: live_def setTimeout_def)
  fix j c' assume "calls s j = Some c'"
  then show "\<exists>c''. calls ?s' j = Some c'' \<and> call_kept c' c''"
    using c na by (cases "j = i") (simp_all add: call_kept_def setTimeout_def)
qed

lemma carries_call_then:
  assumes c: "calls s i = Some c" and na: "\<And>p. p_stage c \<noteq> AwaitSend p"
  shows "carries ct s (call_then i s)"
proof (cases "p_noReply c")
  case True
  then have "carries ct s (settle i (Resolved None) s)"
    using c na by (intro carries_settle) auto
  with True c show ?thesis by (simp add: call_then_def)
next
  case False
  with carries_racing [OF c na, of ct] c show ?thesis
    by (simp add: call_then_def Let_def setTimeout_def)
qed

lemma carries_timeout_fired: "carries ct s (timeout_fired i s)"
proof (cases "calls s i")
  case None
  then show ?thesis by (simp add: timeout_fired_def)
next
  case (Some c)
  show ?thesis
  proof (cases "\<exists>t. p_stage c = Racing t \<and> p_reply c = None")
    case False
    with Some show ?thesis by (auto simp: timeout_fired_def split: stage.splits)
  next
    case True
    then obtain t where t: "p_stage c = Racing t" "p_reply c = None" by blast
    let ?s1 = "s\<lparr>replies := (replies s)(string_of_nat i := None)\<rparr>"
    have k1: "carries ct s ?s1"
      by (rule same_races_carries) (simp add: same_races_def timer_ids_ok_def)
    have k2: "carries ct ?s1 (settle i (Rejected Rej_timeout) ?s1)"
      by (rule carries_settle [where c = c]) (use Some t in simp_all)
    have "carries ct s (settle i (Rejected Rej_timeout) ?s1)"
      using k1 k2 by (rule carries_trans)
    with Some t show ?thesis by (simp add: timeout_fired_def)
  qed
qed

lemma carries_microtask: "carries ct s (microtask i s)"
proof (cases "calls s i")
  case None
  then show ?thesis by (simp add: microtask_def)
next
  case (Some c)
  show ?thesis
  proof (cases "p_stage c")
    case Queued
    with Some carries_call_then [OF Some, of ct] show ?thesis by (simp add: microtask_def)
  next
    case (AwaitSend p)
    show ?thesis
    proof (cases "live ct s")
      case True
      then have "resolved s = []" by (simp add: live_def)
      with Some AwaitSend show ?thesis by (simp add: microtask_def)
    next
      case False
      then show ?thesis by (simp add: carries_def)
    qed
  next
    case (Racing t)
    show ?thesis
    proof (cases "p_reply c")
      case None
      with Some Racing show ?thesis by (simp add: microtask_def)
    next
      case (Some r)
      have "carries ct s (settle i r s)"
        by (rule carries_settle [where c = c]) (use \<open>calls s i = Some c\<close> Racing in simp_all)
      with \<open>calls s i = Some c\<close> Racing Some show ?thesis by (simp add: microtask_def)
    qed
  next
    case (Done r)
    with Some show ?thesis by (simp add: microtask_def)
  qed
qed


lemma carries_reply_handled:
  "carries ct s ((Reply_handle i p s)\<lparr>replies := rp\<rparr>)"
  unfolding carries_def
proof (intro impI conjI allI)
  let ?s' = "(Reply_handle i p s)\<lparr>replies := rp\<rparr>"
  assume l: "live ct s"
  then have l': "callTimeout s = ct" "resolved s = []" "ids_ok s" "timer_ids_ok s" "race_armed s"
    by (simp_all add: live_def)
  have 1: "ids_ok ?s'" using l'(3) by (auto simp: ids_ok_def Reply_handle_def split: option.splits)
  have 2: "timer_ids_ok ?s'"
    using l'(4) by (simp add: timer_ids_ok_def Reply_handle_def split: option.splits)
  have 3: "race_armed ?s'"
    using l'(5) unfolding race_armed_def
    by (auto simp: Reply_handle_def call_delay_def split: option.splits if_splits)
  show "live ct ?s'" using l' 1 2 3 by (simp add: live_def Reply_handle_def split: option.splits)
  fix j c' assume "calls s j = Some c'"
  then show "\<exists>c''. calls ?s' j = Some c'' \<and> call_kept c' c''"
    by (cases "j = i") (auto simp: call_kept_def Reply_handle_def split: option.splits)
qed

lemma carries_registered:
  assumes "\<And>t. st \<noteq> Racing t"
  shows "carries ct s (s\<lparr>callNo := callNo s + 1, replies := rp,
         calls := (calls s)(callNo s \<mapsto> \<lparr>p_stage = st, p_reply = None,
            p_noReply = nr, p_timeout = tm, p_origin = org\<rparr>)\<rparr>)"
  unfolding carries_def
proof (intro impI conjI allI)
  let ?s' = "s\<lparr>callNo := callNo s + 1, replies := rp,
         calls := (calls s)(callNo s \<mapsto> \<lparr>p_stage = st, p_reply = None,
            p_noReply = nr, p_timeout = tm, p_origin = org\<rparr>)\<rparr>"
  assume l: "live ct s"
  then have l': "callTimeout s = ct" "resolved s = []" "ids_ok s" "timer_ids_ok s" "race_armed s"
    by (simp_all add: live_def)
  have fresh: "calls s (callNo s) = None"
    using l'(3) unfolding ids_ok_def by (cases "calls s (callNo s)") auto
  have 1: "ids_ok ?s'" using l'(3) by (auto simp: ids_ok_def dest: less_SucI)
  have 2: "timer_ids_ok ?s'" using l'(4) by (simp add: timer_ids_ok_def)
  have 3: "race_armed ?s'"
    using l'(5) assms unfolding race_armed_def by auto
  show "live ct ?s'" using l' 1 2 3 by (simp add: live_def)
  fix j c' assume "calls s j = Some c'"
  then show "\<exists>c''. calls ?s' j = Some c'' \<and> call_kept c' c''"
    using fresh by (cases "j = callNo s") simp_all
qed

lemma carries_registered_only:
  "carries ct s (s\<lparr>callNo := callNo s + 1, replies := rp, calls := (calls s)(callNo s := None)\<rparr>)"
  unfolding carries_def
proof (intro impI conjI allI)
  let ?s' = "s\<lparr>callNo := callNo s + 1, replies := rp, calls := (calls s)(callNo s := None)\<rparr>"
  assume l: "live ct s"
  then have l': "callTimeout s = ct" "resolved s = []" "ids_ok s" "timer_ids_ok s" "race_armed s"
    by (simp_all add: live_def)
  have fresh: "calls s (callNo s) = None"
    using l'(3) unfolding ids_ok_def by (cases "calls s (callNo s)") auto
  have 1: "ids_ok ?s'" using l'(3) by (auto simp: ids_ok_def dest: less_SucI)
  have 2: "timer_ids_ok ?s'" using l'(4) by (simp add: timer_ids_ok_def)
  have 3: "race_armed ?s'"
    using l'(5) unfolding race_armed_def by auto
  show "live ct ?s'" using l' 1 2 3 by (simp add: live_def)
  fix j c' assume "calls s j = Some c'"
  then show "\<exists>c''. calls ?s' j = Some c'' \<and> call_kept c' c''"
    using fresh by (cases "j = callNo s") simp_all
qed

lemma carries_call: "carries ct s (state_of (call m a opts org s))"
proof -
  let ?i = "callNo s"
  let ?rp = "(replies s)(string_of_nat (callNo s) \<mapsto> callNo s)"
  let ?reg = "\<lambda>st. s\<lparr>callNo := callNo s + 1, replies := ?rp,
         calls := (calls s)(callNo s \<mapsto> \<lparr>p_stage = st, p_reply = None,
            p_noReply = opt_noReply opts, p_timeout = opt_timeout opts, p_origin = org\<rparr>)\<rparr>"
  let ?only = "s\<lparr>callNo := callNo s + 1, replies := ?rp, calls := (calls s)(callNo s := None)\<rparr>"
  have q: "carries ct s (?reg Queued)" by (rule carries_registered) simp
  have w: "carries ct s (?reg (AwaitSend p))" for p by (rule carries_registered) simp
  have o: "carries ct s ?only" by (rule carries_registered_only)
  consider (thrown) "(isConnected s \<or> opt_force opts)" "ws s = None"
    | (sent) h where "(isConnected s \<or> opt_force opts)" "ws s = Some h"
    | (spooled) "\<not> (isConnected s \<or> opt_force opts)" "m \<noteq> authMethod"
    | (dropped) "\<not> (isConnected s \<or> opt_force opts)" "m = authMethod"
    by (cases "ws s") auto
  then show ?thesis
  proof cases
    case thrown
    have "same_races ?only (state_of (call m a opts org s))"
      using thrown
      by (auto simp: same_races_def call_def send_def isConnected_def Let_def timer_ids_ok_def)
    with o show ?thesis by (blast intro: carries_trans same_races_carries)
  next
    case (sent h)
    have "same_races (?reg Queued) (state_of (call m a opts org s))"
      using sent
      by (auto simp: same_races_def call_def send_def isConnected_def Let_def emit_def ws_do_def
          timer_ids_ok_def)
    with q show ?thesis by (blast intro: carries_trans same_races_carries)
  next
    case spooled
    have "same_races (?reg (AwaitSend (promiseNo s))) (state_of (call m a opts org s))"
      using spooled
      by (auto simp: same_races_def call_def send_def isConnected_def Let_def emit_def
          timer_ids_ok_def)
    with w show ?thesis by (blast intro: carries_trans same_races_carries)
  next
    case dropped
    have "same_races (?reg Queued) (state_of (call m a opts org s))"
      using dropped
      by (auto simp: same_races_def call_def send_def isConnected_def Let_def timer_ids_ok_def)
    with q show ?thesis by (blast intro: carries_trans same_races_carries)
  qed
qed

lemma carries_unspool: "carries ct s (state_of (unspool s))"
proof (cases "authpacket s")
  case None
  then show ?thesis by (simp add: unspool_def bang_def)
next
  case (Some tuple)
  with carries_call [of ct s authMethod tuple auth_options ByUnspool] show ?thesis
    by (simp add: unspool_def)
qed

lemma carries_auth: "carries ct s (state_of (auth c u k s))"
proof -
  let ?s1 = "s\<lparr>authpacket := Some [c, u, k]\<rparr>"
  have a: "carries ct s ?s1"
    by (rule same_races_carries) (simp add: same_races_def timer_ids_ok_def)
  have "carries ct ?s1 (state_of (call ''auth'' [c, u, k] no_options ByUser ?s1))"
    by (rule carries_call)
  with a have "carries ct s (state_of (call ''auth'' [c, u, k] no_options ByUser ?s1))"
    by (rule carries_trans)
  with a show ?thesis by (simp add: auth_def Let_def)
qed

lemma carries_welcome_listener: "carries ct s (state_of (welcome_listener s))"
  unfolding welcome_listener_def
  by (rule carries_trans [OF same_races_carries [OF same_races_resetPingTimeout] carries_unspool])

lemma carries_run_welcome: "carries ct s (state_of (run_welcome n s))"
proof (induction n arbitrary: s)
  case 0
  then show ?case by simp
next
  case (Suc n)
  let ?s1 = "s\<lparr>welcomeListeners := welcomeListeners s - 1\<rparr>"
  have a: "carries ct s ?s1"
    by (rule same_races_carries) (simp add: same_races_def timer_ids_ok_def)
  have b: "carries ct ?s1 (state_of (welcome_listener ?s1))" by (rule carries_welcome_listener)
  show ?case
  proof (cases "welcome_listener ?s1")
    case (Returns v s')
    with a b Suc.IH [of s'] show ?thesis by (auto intro: carries_trans)
  next
    case (Throws e s')
    with a b show ?thesis by (auto intro: carries_trans)
  qed
qed

lemma carries_emit_named: "carries ct s (state_of (emit_named name payload s))"
proof -
  let ?s1 = "emit (Named name payload) s"
  have a: "carries ct s ?s1" by (rule same_races_carries) simp
  have b: "carries ct s (state_of (run_welcome (welcomeListeners ?s1) ?s1))"
    by (rule carries_trans [OF a carries_run_welcome])
  show ?thesis
  proof (cases "name = ''WelcomeEvent''")
    case True
    with b show ?thesis by (simp add: emit_named_def Let_def)
  next
    case False
    with a show ?thesis by (simp add: emit_named_def Let_def)
  qed
qed

lemma carries_parsePacket: "carries ct s (state_of (parsePacket d f s))"
proof (cases "f = Some True \<or> d = None")
  case True
  then show ?thesis
    by (auto simp: parsePacket_def intro: same_races_carries)
next
  case False
  then obtain p where d: "d = Some p" and f: "f \<noteq> Some True" by auto
  let ?s1 = "emit (Packet p) s"
  have a: "carries ct s ?s1" by (rule same_races_carries) simp
  show ?thesis
  proof (cases "get_prop p ''type''")
    case (Inl e)
    with a d f show ?thesis by (simp add: parsePacket_def Let_def)
  next
    case (Inr ty)
    consider (reply) "ty = Some (JStr ''reply'')"
      | (event) "ty \<noteq> Some (JStr ''reply'')" "ty = Some (JStr ''event'')"
      | (other) "ty \<noteq> Some (JStr ''reply'')" "ty \<noteq> Some (JStr ''event'')"
      by blast
    then show ?thesis
    proof cases
      case reply
      let ?k = "js_to_string (field p ''id'')"
      show ?thesis
      proof (cases "replies ?s1 ?k")
        case None
        have "carries ct s (emit (Error (NoMethodHandlerError ''No handler for reply ID.'')) ?s1)"
          by (rule carries_trans [OF a]) (rule same_races_carries, simp)
        with a None d f Inr reply show ?thesis
          by (simp add: parsePacket_def Let_def)
      next
        case (Some i)
        have "carries ct ?s1 ((Reply_handle i p ?s1)\<lparr>replies := (replies ?s1)(?k := None)\<rparr>)"
          by (rule carries_reply_handled)
        with a have "carries ct s ((Reply_handle i p ?s1)\<lparr>replies := (replies ?s1)(?k := None)\<rparr>)"
          by (rule carries_trans)
        with Some d f Inr reply show ?thesis
          by (simp add: parsePacket_def Let_def)
      qed
    next
      case event
      have "carries ct s (state_of (emit_named (js_to_string (field p ''event'')) (field p ''data'') ?s1))"
        by (rule carries_trans [OF a carries_emit_named])
      with d f Inr event show ?thesis by (simp add: parsePacket_def Let_def)
    next
      case other
      have "carries ct s (emit (Error (BadMessageError (''Unknown packet type '' @ js_to_string ty))) ?s1)"
        by (rule carries_trans [OF a]) (rule same_races_carries, simp)
      with d f Inr other show ?thesis by (simp add: parsePacket_def Let_def)
    qed
  qed
qed

lemma same_races_clear_keepalive [simp]: "same_races s (clearTimeout (pingTimeoutHandle s) s)"
  by (auto simp: same_races_def clearTimeout_def timer_ids_ok_def split: option.splits)

lemma carries_ping: "carries ct s (state_of (ping s))"
proof -
  let ?s1 = "clearTimeout (pingTimeoutHandle s) s"
  have a: "carries ct s ?s1" by (rule same_races_carries) simp
  have b: "carries ct s (state_of (call ''ping'' [] (ping_options ?s1) (ByPing h) ?s1))" for h
    by (rule carries_trans [OF a carries_call])
  have c: "carries ct s (ws_do h Op_ping
       ((snd (setTimeout (Cb_reject_probe (probeNo ?s1)) (pingTimeout ?s1) ?s1))
          \<lparr>probes := (probes ?s1)(probeNo ?s1 \<mapsto> h), probeNo := probeNo ?s1 + 1\<rparr>))" for h
    by (rule carries_trans [OF a]) (rule same_races_carries,
        auto simp: same_races_def ws_do_def setTimeout_def timer_ids_ok_def dest: less_SucI)
  show ?thesis
    using a b c
    by (simp add: ping_def Let_def setTimeout_def split: option.splits)
qed

lemma carries_on_message: "carries ct s (state_of (on_message h d f s))"
proof -
  have "carries ct s (state_of (parsePacket d f (resetPingTimeout s)))"
    by (rule carries_trans [OF same_races_carries [OF same_races_resetPingTimeout]
          carries_parsePacket])
  then show ?thesis
    by (simp add: on_message_def whilstSameSocket_def split: global_self.splits receiver.splits)
qed


lemma same_races_timer_removed:
  assumes "timers s t = Some (cb, d)" and "\<And>i. cb \<noteq> Cb_reject_timeout i"
  shows "same_races s (s\<lparr>timers := (timers s)(t := None)\<rparr>)"
  using assms by (auto simp: same_races_def timer_ids_ok_def)

lemma carries_timeout_timer:
  assumes tm: "timers s t = Some (Cb_reject_timeout i, d)"
  shows "carries ct s (timeout_fired i (s\<lparr>timers := (timers s)(t := None)\<rparr>))"
proof (cases "live ct s")
  case False
  then show ?thesis by (simp add: carries_def)
next
  case True
  then have l': "callTimeout s = ct" "resolved s = []" "ids_ok s" "timer_ids_ok s" "race_armed s"
    by (simp_all add: live_def)
  let ?s1 = "s\<lparr>timers := (timers s)(t := None)\<rparr>"
  have own: "j = i" if "calls s j = Some c'" "p_stage c' = Racing t" "p_reply c' = None" for j c'
  proof -
    from l'(5) that have "timers s t = Some (Cb_reject_timeout j, call_delay (p_timeout c') s)"
      unfolding race_armed_def by blast
    with tm show ?thesis by simp
  qed
  have ti: "timer_ids_ok ?s1" using l'(4) by (auto simp: timer_ids_ok_def)
  show ?thesis
  proof (cases "\<exists>c t'. calls s i = Some c \<and> p_stage c = Racing t' \<and> p_reply c = None")
    case False
    then have e: "timeout_fired i ?s1 = ?s1"
      by (auto simp: timeout_fired_def split: option.splits stage.splits)
    have "race_armed ?s1"
      unfolding race_armed_def
    proof (intro allI impI, elim conjE)
      fix j c' t' assume a: "calls ?s1 j = Some c'" "p_stage c' = Racing t'" "p_reply c' = None"
      then have b: "calls s j = Some c'" by simp
      with l'(5) a have x: "timers s t' = Some (Cb_reject_timeout j, call_delay (p_timeout c') s)"
        unfolding race_armed_def by blast
      have "t' \<noteq> t"
      proof
        assume "t' = t"
        with own [OF b] a have "j = i" by simp
        with False b a show False by blast
      qed
      with x show "timers ?s1 t' = Some (Cb_reject_timeout j, call_delay (p_timeout c') ?s1)"
        by simp
    qed
    with l' ti have "live ct ?s1" by (simp add: live_def ids_ok_def)
    then show ?thesis unfolding e carries_def by simp
  next
    case True
    then obtain c t' where c: "calls s i = Some c" "p_stage c = Racing t'" "p_reply c = None"
      by blast
    let ?rp = "(replies s)(string_of_nat i := None)"
    let ?s3 = "?s1\<lparr>replies := ?rp, calls := (calls s)(i \<mapsto> c\<lparr>p_stage := Done (Rejected Rej_timeout)\<rparr>)\<rparr>"
    have e: "timeout_fired i ?s1 = settle i (Rejected Rej_timeout) (?s1\<lparr>replies := ?rp\<rparr>)"
      using c by (simp add: timeout_fired_def)
    have ra: "race_armed ?s3"
      unfolding race_armed_def
    proof (intro allI impI, elim conjE)
      fix j c' t'' assume a: "calls ?s3 j = Some c'" "p_stage c' = Racing t''" "p_reply c' = None"
      then have ji: "j \<noteq> i" by auto
      with a have b: "calls s j = Some c'" by simp
      with l'(5) a have x: "timers s t'' = Some (Cb_reject_timeout j, call_delay (p_timeout c') s)"
        unfolding race_armed_def by blast
      have "t'' \<noteq> t" using own [OF b] a ji by auto
      with x show "timers ?s3 t'' = Some (Cb_reject_timeout j, call_delay (p_timeout c') ?s3)"
        by simp
    qed
    have i3: "ids_ok ?s3" using l'(3) c by (auto simp: ids_ok_def)
    have t3: "timer_ids_ok ?s3" using ti by (simp add: timer_ids_ok_def)
    have l3: "live ct ?s3" using l' i3 t3 ra by (simp add: live_def)
    have k3: "\<exists>c''. calls ?s3 j = Some c'' \<and> call_kept c' c''" if "calls s j = Some c'" for j c'
      using that c by (cases "j = i") (simp_all add: call_kept_def)
    have a: "carries ct s ?s3" unfolding carries_def using l3 k3 by blast
    have "same_races ?s3 (settle i (Rejected Rej_timeout) (?s1\<lparr>replies := ?rp\<rparr>))"
      using same_races_settle_rest [of "?s1\<lparr>replies := ?rp\<rparr>" i c "Rejected Rej_timeout"] c
      by simp
    then have "carries ct s (settle i (Rejected Rej_timeout) (?s1\<lparr>replies := ?rp\<rparr>))"
      using a by (blast intro: carries_trans same_races_carries)
    then show ?thesis unfolding e .
  qed
qed

lemma carries_timer_fired: "carries ct s (timer_fired t s)"
proof (cases "timers s t")
  case None
  then show ?thesis by (simp add: timer_fired_def)
next
  case (Some x)
  obtain cb d where x: "x = (cb, d)" by (cases x)
  let ?s1 = "s\<lparr>timers := (timers s)(t := None)\<rparr>"
  show ?thesis
  proof (cases "\<exists>i. cb = Cb_reject_timeout i")
    case True
    then obtain i where i: "cb = Cb_reject_timeout i" by blast
    with Some x carries_timeout_timer [of s t i d ct] show ?thesis
      by (simp add: timer_fired_def Let_def)
  next
    case False
    then have a: "carries ct s ?s1"
      using Some x by (intro same_races_carries same_races_timer_removed [where cb = cb]) auto
    have "carries ct ?s1 (case cb of
                Cb_ping \<Rightarrow> state_of (ping ?s1)
              | Cb_close_ws h \<Rightarrow> ws_do h Op_close ?s1
              | Cb_boot \<Rightarrow> boot ?s1
              | Cb_reject_timeout i \<Rightarrow> timeout_fired i ?s1
              | Cb_reject_probe k \<Rightarrow> probe_timed_out k ?s1)"
      using False by (cases cb) (simp_all add: carries_ping same_races_carries)
    with a Some x show ?thesis
      by (simp add: timer_fired_def Let_def) (blast intro: carries_trans)
  qed
qed

lemma carries_step: "carries ct s (step e s)"
  by (cases e) (simp_all add: same_races_carries carries_ping carries_call carries_auth
       carries_unspool carries_parsePacket carries_on_message carries_timer_fired carries_microtask)

lemma carries_run: "carries ct s (run evs s)"
proof (induction evs arbitrary: s)
  case Nil
  then show ?case by (simp add: run_def)
next
  case (Cons e evs)
  have "run (e # evs) s = run evs (step e s)" by (simp add: run_def)
  with carries_trans [OF carries_step Cons.IH] show ?case by simp
qed

lemma live_initial:
  "live (case given_callTimeout opts of None \<Rightarrow> 20 * 1000 | Some v \<Rightarrow> v)
     (BeamSocket node self rnd addrs opts)"
  by (simp add: live_def ids_ok_def timer_ids_ok_def race_armed_def BeamSocket_def)

lemma live_reachable:
  "live (case given_callTimeout opts of None \<Rightarrow> 20 * 1000 | Some v \<Rightarrow> v)
     (run evs (BeamSocket node self rnd addrs opts))"
  using carries_run [of _ "BeamSocket node self rnd addrs opts" evs] live_initial
  unfolding carries_def by blast

subsection \<open>Progress of a call\<close>

lemma spooled_stays_pending:
  assumes s: "s = run evs (BeamSocket node self rnd addrs opts)"
    and c: "calls s i = Some c" and a: "p_stage c = AwaitSend q"
  shows "settlement (run evs' s) i = None"
proof -
  let ?ct = "case given_callTimeout opts of None \<Rightarrow> 20 * 1000 | Some v \<Rightarrow> v"
  have "live ?ct s" unfolding s by (rule live_reachable)
  with carries_run [of ?ct s evs'] c
  obtain c' where "calls (run evs' s) i = Some c'" "call_kept c c'"
    unfolding carries_def by blast
  with a show ?thesis by (simp add: call_kept_def settlement_def)
qed

lemma call_registers:
  assumes "call m a opts org s = Returns k s'"
  shows "k = callNo s \<and> callNo s' = Suc k \<and> replies s' (string_of_nat k) = Some k
     \<and> calls s' k = Some \<lparr>p_stage = (if isConnected s \<or> opt_force opts \<or> m = authMethod
                                     then Queued else AwaitSend (promiseNo s)),
          p_reply = None, p_noReply = opt_noReply opts, p_timeout = opt_timeout opts,
          p_origin = org\<rparr>"
  using assms
  by (auto simp: call_def send_def Let_def emit_def ws_do_def isConnected_def
      split: option.splits if_splits)

lemma then_callback_arms:
  assumes c: "calls s i = Some c" and q: "p_stage c = Queued" and nr: "\<not> p_noReply c"
  shows "calls (microtask i s) i = Some (c\<lparr>p_stage := Racing (timerNo s)\<rparr>)
     \<and> timers (microtask i s) (timerNo s) = Some (Cb_reject_timeout i, call_delay (p_timeout c) s)"
  using c q nr by (simp add: microtask_def call_then_def setTimeout_def Let_def)

lemma race_won_by_reply:
  assumes "calls s i = Some c" and "p_stage c = Racing t" and "p_reply c = Some r"
  shows "settlement (microtask i s) i = Some r"
  using assms by (simp add: microtask_def settlement_settle)

lemma race_won_by_timer:
  assumes l: "live ct s" and c: "calls s i = Some c" and r: "p_stage c = Racing t"
    and n: "p_reply c = None"
  shows "timers s t = Some (Cb_reject_timeout i, call_delay (p_timeout c) s)
     \<and> settlement (timer_fired t s) i = Some (Rejected Rej_timeout)"
proof -
  from l have "race_armed s" by (simp add: live_def)
  with c r n have tm: "timers s t = Some (Cb_reject_timeout i, call_delay (p_timeout c) s)"
    unfolding race_armed_def by blast
  let ?s1 = "s\<lparr>timers := (timers s)(t := None)\<rparr>"
  let ?s2 = "?s1\<lparr>replies := (replies ?s1)(string_of_nat i := None)\<rparr>"
  have "timer_fired t s = timeout_fired i ?s1"
    using tm by (simp add: timer_fired_def)
  also have "\<dots> = settle i (Rejected Rej_timeout) ?s2"
    using c r n by (simp add: timeout_fired_def)
  finally have "timer_fired t s = settle i (Rejected Rej_timeout) ?s2" .
  moreover have "calls ?s2 i = Some c" using c by simp
  ultimately have "settlement (timer_fired t s) i = Some (Rejected Rej_timeout)"
    by (simp only: settlement_settle)
  with tm show ?thesis by simp
qed

lemma spooled_waits:
  assumes "calls s i = Some c" and "p_stage c = AwaitSend q" and "q \<notin> set (resolved s)"
  shows "microtask i s = s \<and> timeout_fired i s = s"
  using assms by (simp add: microtask_def timeout_fired_def)

lemma live_step: "live ct s \<Longrightarrow> live ct (step e s)"
  using carries_step [of ct s e] by (simp add: carries_def)

lemma good_step_quiet: "good ps s \<Longrightarrow> packets_of e = [] \<Longrightarrow> good ps (step e s)"
  using keeps_step [of e ps s] by (simp add: keeps_def)

lemma settled_step_quiet:
  "good ps s \<Longrightarrow> packets_of e = [] \<Longrightarrow> settlement s i = Some r \<Longrightarrow> settlement (step e s) i = Some r"
  using keeps_step [of e ps s] by (simp add: keeps_def)

lemma racing_call_settles:
  assumes g: "good ps s" and l: "live ct s"
    and c: "calls s i = Some c" and r: "p_stage c = Racing t"
  shows "settlement (run [Ev_microtask i, Ev_timer t] s) i \<noteq> None"
proof (cases "p_reply c")
  case None
  have "microtask i s = s" using c r None by (simp add: microtask_def)
  then have "run [Ev_microtask i, Ev_timer t] s = timer_fired t s" by (simp add: run_def)
  with race_won_by_timer [OF l c r None] show ?thesis by simp
next
  case (Some x)
  let ?s1 = "step (Ev_microtask i) s"
  have 1: "settlement ?s1 i = Some x" using race_won_by_reply [OF c r Some] by simp
  have 2: "good ps ?s1" using g by (rule good_step_quiet) simp
  have "settlement (step (Ev_timer t) ?s1) i = Some x"
    using 2 _ 1 by (rule settled_step_quiet) simp
  then show ?thesis by (simp add: run_def)
qed

lemma queued_call_settles:
  assumes g: "good ps s" and l: "live ct s"
    and c: "calls s i = Some c" and q: "p_stage c = Queued" and nr: "\<not> p_noReply c"
  shows "settlement (run [Ev_microtask i, Ev_microtask i, Ev_timer (timerNo s)] s) i \<noteq> None"
proof -
  let ?s1 = "step (Ev_microtask i) s"
  have 1: "calls ?s1 i = Some (c\<lparr>p_stage := Racing (timerNo s)\<rparr>)"
    using then_callback_arms [OF c q nr] by simp
  have 2: "good ps ?s1" using g by (rule good_step_quiet) simp
  have 3: "live ct ?s1" using l by (rule live_step)
  have "settlement (run [Ev_microtask i, Ev_timer (timerNo s)] ?s1) i \<noteq> None"
    using 2 3 1 by (rule racing_call_settles) simp
  then show ?thesis by (simp add: run_def)
qed


subsection \<open>Concrete runs\<close>

lemma key0: "string_of_nat 0 = ''0''"
  by (simp add: string_of_nat.simps [of 0] digit_def char_of_eq_iff)

lemmas run_defs =
  run_def fresh_socket_def BeamSocket_def default_options_def boot_def getAddress_def ws_do_def
  resetConnectionTimeout_def resetPingTimeout_def clearTimeout_def setTimeout_def Let_def
  call_def send_def emit_def isConnected_def authMethod_def forced_options_def
  microtask_def call_then_def call_delay_def timer_fired_def timeout_fired_def settle_def
  parsePacket_def get_prop_def field_def js_to_string_def string_of_int_def key0
  Reply_handle_def reply_outcome_def pong_reply_def late_reply_def

lemma key1: "string_of_nat 1 = ''1''" "string_of_nat (Suc 0) = ''1''"
  by (simp_all add: string_of_nat.simps [of 1] string_of_nat.simps [of "Suc 0"] digit_def char_of_eq_iff)

lemmas auth_run_defs =
  auth_boot_run_def auth_racing_run_def auth_call_frame_def auth_def unspool_def auth_options_def
  no_options_def whisper_frame_def key1 run_defs

lemma replied: "settlement (run replied_run fresh_socket) 0 = Some (Resolved (Some (JStr ''pong'')))"
  by (simp add: replied_run_def settlement_def run_defs)

lemma timed_out: "settlement (run timed_out_run fresh_socket) 0 = Some (Rejected Rej_timeout)"
  by (simp add: timed_out_run_def settlement_def run_defs)

lemma pong_for_0: "is_reply_for 0 pong_reply"
  by (simp add: is_reply_for_def run_defs)

lemma timed_out_emitted: "emitted (run timed_out_run fresh_socket) =
    [Sent \<lparr>frame_type = ''method'', frame_method = ''ping'', frame_arguments = [], frame_id = 0\<rparr>]"
  by (simp add: timed_out_run_def run_defs)

lemmas more_defs = zero_timeout_options_def zero_timeout_run_def answered_run_def spooled_run_def
  custom_options_def custom_socket_def sent_run_def



section \<open>Authentication on unspool\<close>

lemma settle_by_unspool:
  assumes "calls s i = Some c" and "p_origin c = ByUnspool"
  shows "settle i (Rejected x) s =
     close (emit (Error (AuthenticationFailedError ''?''))
        (s\<lparr>calls := (calls s)(i \<mapsto> c\<lparr>p_stage := Done (Rejected x)\<rparr>)\<rparr>))"
  using assms by (simp add: settle_def Let_def unspool_settled_def unspool_catch_def)

lemma close_effect:
  "emitted (close s) = emitted s \<and> spool (close s) = spool s \<and> resolved (close s) = resolved s
   \<and> calls (close s) = calls s
   \<and> status (close s) = (if ws s = None then CLOSED else CLOSING)
   \<and> wire (close s) = wire s @ (case ws s of None \<Rightarrow> [] | Some h \<Rightarrow> [(h, Op_close)])
   \<and> ws (close s) = ws s"
  by (simp add: close_def ws_do_def clearTimeout_def split: option.splits)

lemma rejected_auth_closes:
  assumes c: "calls s i = Some c" and o: "p_origin c = ByUnspool"
    and s'_def: "s' = settle i (Rejected x) (s\<lparr>replies := rp\<rparr>)"
  shows "emitted s' = emitted s @ [Error (AuthenticationFailedError ''?'')]
      \<and> spool s' = spool s \<and> resolved s' = resolved s
      \<and> status s' = (if ws s = None then CLOSED else CLOSING)
      \<and> wire s' = wire s @ (case ws s of None \<Rightarrow> [] | Some h \<Rightarrow> [(h, Op_close)])
      \<and> (ws s \<noteq> None \<longrightarrow> status (handleClose s') = CLOSED
            \<and> emitted (handleClose s') = emitted s' @ [Closed])
      \<and> microtask i s' = s' \<and> timeout_fired i s' = s'"
proof -
  let ?s0 = "s\<lparr>replies := rp\<rparr>"
  let ?s1 = "emit (Error (AuthenticationFailedError ''?''))
        (?s0\<lparr>calls := (calls ?s0)(i \<mapsto> c\<lparr>p_stage := Done (Rejected x)\<rparr>)\<rparr>)"
  have e: "s' = close ?s1"
    unfolding s'_def using c o by (simp add: settle_by_unspool)
  have cl: "calls s' i = Some (c\<lparr>p_stage := Done (Rejected x)\<rparr>)"
    unfolding e using close_effect [of ?s1] by (simp add: emit_def)
  have 1: "emitted s' = emitted s @ [Error (AuthenticationFailedError ''?'')]
      \<and> spool s' = spool s \<and> resolved s' = resolved s
      \<and> status s' = (if ws s = None then CLOSED else CLOSING)
      \<and> wire s' = wire s @ (case ws s of None \<Rightarrow> [] | Some h \<Rightarrow> [(h, Op_close)])"
    unfolding e using close_effect [of ?s1] by (simp add: emit_def)
  have 2: "ws s \<noteq> None \<longrightarrow> status (handleClose s') = CLOSED
            \<and> emitted (handleClose s') = emitted s' @ [Closed]"
  proof
    assume "ws s \<noteq> None"
    with 1 have "status s' = CLOSING" by simp
    then show "status (handleClose s') = CLOSED \<and> emitted (handleClose s') = emitted s' @ [Closed]"
      by (simp add: handleClose_def Let_def emit_def clearTimeout_def split: option.splits)
  qed
  have 3: "microtask i s' = s' \<and> timeout_fired i s' = s'"
    using cl by (simp add: microtask_def timeout_fired_def)
  show ?thesis using 1 2 3 by blast
qed

text \<open>
  With a saved authentication tuple and a transport, \<^verbatim>\<open>unspool\<close> returns
  after transmitting the authentication frame (forced: the status is not consulted)
  and nothing else: the spool, the resolved completion signals and the status are as
  before. When that call's promise rejects (its timer fires first, or a reply with an
  error is handled), exactly one authentication-failed error is emitted and
  \<^verbatim>\<open>close\<close> runs: the status is CLOSING with the transport asked to close (CLOSED at
  once without a transport), closure handling, were it to run, would end in CLOSED with
  the closed notification, the spool is not flushed, and running the settled call's
  reactions or its timer again changes nothing.
\<close>
lemma reauthentication_on_unspool:
  "(authpacket s = Some tuple \<and> ws s = Some h \<longrightarrow>
       thrown (unspool s) = None
     \<and> wire (state_of (unspool s)) = wire s @
          [(h, Op_send \<lparr>frame_type = ''method'', frame_method = ''auth'', frame_arguments = tuple,
                         frame_id = callNo s\<rparr>)]
     \<and> emitted (state_of (unspool s)) = emitted s @
          [Sent \<lparr>frame_type = ''method'', frame_method = ''auth'', frame_arguments = tuple,
                 frame_id = callNo s\<rparr>]
     \<and> spool (state_of (unspool s)) = spool s
     \<and> resolved (state_of (unspool s)) = resolved s
     \<and> status (state_of (unspool s)) = status s
     \<and> calls (state_of (unspool s)) (callNo s) =
          Some \<lparr>p_stage = Queued, p_reply = None, p_noReply = False, p_timeout = None,
                p_origin = ByUnspool\<rparr>)
   \<and> (calls s i = Some c \<and> p_origin c = ByUnspool \<and> p_stage c = Racing t
       \<and> (p_reply c = None \<and> s' = timeout_fired i s
           \<or> p_reply c = Some (Rejected e) \<and> s' = microtask i s) \<longrightarrow>
        emitted s' = emitted s @ [Error (AuthenticationFailedError ''?'')]
      \<and> spool s' = spool s
      \<and> resolved s' = resolved s
      \<and> status s' = (if ws s = None then CLOSED else CLOSING)
      \<and> wire s' = wire s @ (case ws s of None \<Rightarrow> [] | Some h \<Rightarrow> [(h, Op_close)])
      \<and> (ws s \<noteq> None \<longrightarrow> status (handleClose s') = CLOSED
            \<and> emitted (handleClose s') = emitted s' @ [Closed])
      \<and> microtask i s' = s' \<and> timeout_fired i s' = s')"
proof -
  have A: "authpacket s = Some tuple \<and> ws s = Some h \<longrightarrow>
       thrown (unspool s) = None
     \<and> wire (state_of (unspool s)) = wire s @
          [(h, Op_send \<lparr>frame_type = ''method'', frame_method = ''auth'', frame_arguments = tuple,
                         frame_id = callNo s\<rparr>)]
     \<and> emitted (state_of (unspool s)) = emitted s @
          [Sent \<lparr>frame_type = ''method'', frame_method = ''auth'', frame_arguments = tuple,
                 frame_id = callNo s\<rparr>]
     \<and> spool (state_of (unspool s)) = spool s
     \<and> resolved (state_of (unspool s)) = resolved s
     \<and> status (state_of (unspool s)) = status s
     \<and> calls (state_of (unspool s)) (callNo s) =
          Some \<lparr>p_stage = Queued, p_reply = None, p_noReply = False, p_timeout = None,
                p_origin = ByUnspool\<rparr>"
    by (simp add: unspool_def call_def send_def auth_options_def authMethod_def thrown_def
        emit_def ws_do_def Let_def)
  have B: "emitted s' = emitted s @ [Error (AuthenticationFailedError ''?'')]
      \<and> spool s' = spool s
      \<and> resolved s' = resolved s
      \<and> status s' = (if ws s = None then CLOSED else CLOSING)
      \<and> wire s' = wire s @ (case ws s of None \<Rightarrow> [] | Some h \<Rightarrow> [(h, Op_close)])
      \<and> (ws s \<noteq> None \<longrightarrow> status (handleClose s') = CLOSED
            \<and> emitted (handleClose s') = emitted s' @ [Closed])
      \<and> microtask i s' = s' \<and> timeout_fired i s' = s'"
    if c: "calls s i = Some c" "p_origin c = ByUnspool" "p_stage c = Racing t"
      and k: "p_reply c = None \<and> s' = timeout_fired i s
           \<or> p_reply c = Some (Rejected e) \<and> s' = microtask i s"
  proof -
    from k show ?thesis
    proof (elim disjE conjE)
      assume "p_reply c = None" "s' = timeout_fired i s"
      then have "s' = settle i (Rejected Rej_timeout) (s\<lparr>replies := (replies s)(string_of_nat i := None)\<rparr>)"
        using c by (simp add: timeout_fired_def)
      then show ?thesis by (rule rejected_auth_closes [OF c(1,2)])
    next
      assume "p_reply c = Some (Rejected e)" "s' = microtask i s"
      then have "s' = settle i (Rejected e) (s\<lparr>replies := replies s\<rparr>)"
        using c by (simp add: microtask_def)
      then show ?thesis by (rule rejected_auth_closes [OF c(1,2)])
    qed
  qed
  have B': "calls s i = Some c \<and> p_origin c = ByUnspool \<and> p_stage c = Racing t
       \<and> (p_reply c = None \<and> s' = timeout_fired i s
           \<or> p_reply c = Some (Rejected e) \<and> s' = microtask i s) \<longrightarrow>
        emitted s' = emitted s @ [Error (AuthenticationFailedError ''?'')]
      \<and> spool s' = spool s
      \<and> resolved s' = resolved s
      \<and> status s' = (if ws s = None then CLOSED else CLOSING)
      \<and> wire s' = wire s @ (case ws s of None \<Rightarrow> [] | Some h \<Rightarrow> [(h, Op_close)])
      \<and> (ws s \<noteq> None \<longrightarrow> status (handleClose s') = CLOSED
            \<and> emitted (handleClose s') = emitted s' @ [Closed])
      \<and> microtask i s' = s' \<and> timeout_fired i s' = s'"
  proof (intro impI, elim conjE)
    assume "calls s i = Some c" "p_origin c = ByUnspool" "p_stage c = Racing t"
      "p_reply c = None \<and> s' = timeout_fired i s
           \<or> p_reply c = Some (Rejected e) \<and> s' = microtask i s"
    then show "emitted s' = emitted s @ [Error (AuthenticationFailedError ''?'')]
      \<and> spool s' = spool s
      \<and> resolved s' = resolved s
      \<and> status s' = (if ws s = None then CLOSED else CLOSING)
      \<and> wire s' = wire s @ (case ws s of None \<Rightarrow> [] | Some h \<Rightarrow> [(h, Op_close)])
      \<and> (ws s \<noteq> None \<longrightarrow> status (handleClose s') = CLOSED
            \<and> emitted (handleClose s') = emitted s' @ [Closed])
      \<and> microtask i s' = s' \<and> timeout_fired i s' = s'"
      by (rule B)
  qed
  show ?thesis using A B' by (rule conjI)
qed

lemma reauthentication_on_unspool_example:
  "authpacket (run auth_boot_run fresh_socket) = Some [JNum 1, JNum 2, JStr ''key'']
   \<and> ws (run auth_boot_run fresh_socket) = Some 0
   \<and> spool (run auth_boot_run fresh_socket) = [(whisper_frame, 0)]
   \<and> wire (state_of (unspool (run auth_boot_run fresh_socket))) =
        [(0, Op_new (Some ''b'')), (0, Op_send auth_call_frame)]
   \<and> spool (state_of (unspool (run auth_boot_run fresh_socket))) = [(whisper_frame, 0)]
   \<and> emitted (timeout_fired 1 (run auth_racing_run fresh_socket)) =
        [Spooled whisper_frame, Sent auth_call_frame, Error (AuthenticationFailedError ''?'')]
   \<and> spool (timeout_fired 1 (run auth_racing_run fresh_socket)) = [(whisper_frame, 0)]
   \<and> status (timeout_fired 1 (run auth_racing_run fresh_socket)) = CLOSING
   \<and> status (handleClose (timeout_fired 1 (run auth_racing_run fresh_socket))) = CLOSED
   \<and> emitted (microtask 1 (run auth_denied_run fresh_socket)) =
        [Spooled whisper_frame, Sent auth_call_frame, Packet denied_reply,
         Error (AuthenticationFailedError ''?'')]
   \<and> spool (microtask 1 (run auth_denied_run fresh_socket)) = [(whisper_frame, 0)]
   \<and> status (microtask 1 (run auth_denied_run fresh_socket)) = CLOSING
   \<and> wire (microtask 1 (run auth_denied_run fresh_socket)) =
        [(0, Op_new (Some ''b'')), (0, Op_send auth_call_frame), (0, Op_close)]"
proof -
  let ?a = "run auth_boot_run fresh_socket"
  let ?r = "run auth_racing_run fresh_socket"
  let ?e = "run auth_denied_run fresh_socket"
  let ?c = "\<lparr>p_stage = Racing 1, p_reply = Some (Rejected (Rej_reply (JStr ''denied''))),
      p_noReply = False, p_timeout = None, p_origin = ByUnspool\<rparr>"
  have a: "authpacket ?a = Some [JNum 1, JNum 2, JStr ''key'']" "ws ?a = Some 0"
    "spool ?a = [(whisper_frame, 0)]" "wire ?a = [(0, Op_new (Some ''b''))]" "callNo ?a = 1"
    by (simp_all add: auth_run_defs)
  have r: "calls ?r 1 = Some \<lparr>p_stage = Racing 1, p_reply = None, p_noReply = False,
      p_timeout = None, p_origin = ByUnspool\<rparr>"
    "emitted ?r = [Spooled whisper_frame, Sent auth_call_frame]" "spool ?r = [(whisper_frame, 0)]"
    "ws ?r = Some 0"
    by (simp_all add: auth_run_defs)
  note A = reauthentication_on_unspool [where s = ?a and tuple = "[JNum 1, JNum 2, JStr ''key'']"
      and h = 0, THEN conjunct1, rule_format]
  have 1: "wire (state_of (unspool ?a)) = [(0, Op_new (Some ''b'')), (0, Op_send auth_call_frame)]
     \<and> spool (state_of (unspool ?a)) = [(whisper_frame, 0)]"
    using A a by (simp add: auth_call_frame_def)
  note B = reauthentication_on_unspool [where s = ?r and i = 1 and t = 1
      and c = "\<lparr>p_stage = Racing 1, p_reply = None, p_noReply = False,
      p_timeout = None, p_origin = ByUnspool\<rparr>" and s' = "timeout_fired 1 ?r",
      THEN conjunct2, rule_format]
  have 2: "emitted (timeout_fired 1 ?r) =
        [Spooled whisper_frame, Sent auth_call_frame, Error (AuthenticationFailedError ''?'')]
   \<and> spool (timeout_fired 1 ?r) = [(whisper_frame, 0)]
   \<and> status (timeout_fired 1 ?r) = CLOSING
   \<and> status (handleClose (timeout_fired 1 ?r)) = CLOSED"
    using B r by simp
  have e: "calls ?e 1 = Some ?c"
    "emitted ?e = [Spooled whisper_frame, Sent auth_call_frame, Packet denied_reply]"
    "spool ?e = [(whisper_frame, 0)]" "ws ?e = Some 0"
    "wire ?e = [(0, Op_new (Some ''b'')), (0, Op_send auth_call_frame)]"
    by (simp_all add: auth_denied_run_def auth_run_defs denied_reply_def)
  note C = reauthentication_on_unspool [where s = ?e and i = 1 and t = 1 and c = ?c
      and e = "Rej_reply (JStr ''denied'')" and s' = "microtask 1 ?e",
      THEN conjunct2, rule_format]
  have 3: "emitted (microtask 1 ?e) =
        [Spooled whisper_frame, Sent auth_call_frame, Packet denied_reply,
         Error (AuthenticationFailedError ''?'')]
   \<and> spool (microtask 1 ?e) = [(whisper_frame, 0)]
   \<and> status (microtask 1 ?e) = CLOSING
   \<and> wire (microtask 1 ?e) =
        [(0, Op_new (Some ''b'')), (0, Op_send auth_call_frame), (0, Op_close)]"
    using C e by simp
  show ?thesis using a 1 2 3 by simp
qed

section \<open>Inbound frames that make parsePacket throw\<close>

text \<open>
  Claim C6, at a concrete input. The frame whose text is \<^verbatim>\<open>null\<close> is valid JSON;
  \<^verbatim>\<open>parsePacket\<close> emits it as a packet and then throws a \<^verbatim>\<open>TypeError\<close> reading
  \<^verbatim>\<open>packet.type\<close>. A reply whose id is the text \<^verbatim>\<open>constructor\<close> throws as well:
  the lookup in \<^verbatim>\<open>_replies\<close> finds the inherited property, which has no
  \<^verbatim>\<open>handle\<close>.
\<close>
theorem parsePacket_throws_on_null:
  "parsePacket (Some JNull) None fresh_socket = Throws TypeError (emit (Packet JNull) fresh_socket)
   \<and> thrown (parsePacket (Some (JObj [(''type'', JStr ''reply''), (''id'', JStr ''constructor'')])) None
        fresh_socket) = Some TypeError"
  by (simp add: parsePacket_def get_prop_def field_def js_to_string_def thrown_def
      Object_prototype_keys_def fresh_socket_def BeamSocket_def emit_def Let_def)

section \<open>Spool and flush\<close>

text \<open>
  Invoked on the Session, \<^verbatim>\<open>bang\<close> transmits the spooled frames in the order they
  were enqueued, each with its sent notification and its completion signal resolved,
  then empties the spool, resets the retry counter, sets CONNECTED and emits the
  connected notification. \<^verbatim>\<open>unspool\<close> never invokes it so: without a saved
  authentication tuple the plain call throws at once, and with one the \<^verbatim>\<open>then\<close>
  of the authentication call throws into the \<^verbatim>\<open>catch\<close>, whatever the reply was.
\<close>

lemma send_forced:
  "ws s = Some h \<Longrightarrow> send d True s = Returns Send_resolved (emit (Sent d) (ws_do h (Op_send d) s))"
  by (simp add: send_def)

lemma bang_loop_flush:
  assumes "ws s = Some h"
  shows "bang_loop i s = Returns ()
     (s\<lparr>wire := wire s @ map (\<lambda>e. (h, Op_send (fst e))) (drop i (spool s)),
        emitted := emitted s @ map (\<lambda>e. Sent (fst e)) (drop i (spool s)),
        resolved := resolved s @ map snd (drop i (spool s))\<rparr>)"
  using assms
proof (induction i s rule: bang_loop.induct)
  case (1 i s)
  show ?case
  proof (cases "i < length (spool s)")
    case False
    then show ?thesis by (simp add: bang_loop.simps [of i s])
  next
    case True
    let ?d = "fst (spool s ! i)"
    let ?s' = "emit (Sent ?d) (ws_do h (Op_send ?d) s)"
    let ?s2 = "resolve_signal (snd (spool ?s' ! i)) ?s'"
    have snd: "send ?d True s = Returns Send_resolved ?s'"
      using "1.prems" by (rule send_forced)
    have w: "ws ?s2 = Some h" using "1.prems" by (simp add: resolve_signal_def emit_def ws_do_def)
    have sp: "spool ?s2 = spool s" by (simp add: resolve_signal_def emit_def ws_do_def)
    have ih: "bang_loop (i + 1) ?s2 = Returns ()
       (?s2\<lparr>wire := wire ?s2 @ map (\<lambda>e. (h, Op_send (fst e))) (drop (i + 1) (spool ?s2)),
          emitted := emitted ?s2 @ map (\<lambda>e. Sent (fst e)) (drop (i + 1) (spool ?s2)),
          resolved := resolved ?s2 @ map snd (drop (i + 1) (spool ?s2))\<rparr>)"
      using "1.IH" [OF True snd w] .
    have d: "drop i (spool s) = spool s ! i # drop (Suc i) (spool s)"
      using True by (simp add: Cons_nth_drop_Suc)
    have "bang_loop i s = bang_loop (i + 1) ?s2"
      using True snd by (simp add: bang_loop.simps [of i s])
    also note ih
    finally show ?thesis
      unfolding sp d by (simp add: resolve_signal_def emit_def ws_do_def)
  qed
qed

lemma bang_on_session:
  assumes "ws s = Some h"
  shows "bang This_session s = Returns ()
     (s\<lparr>wire := wire s @ map (\<lambda>e. (h, Op_send (fst e))) (spool s),
        emitted := emitted s @ map (\<lambda>e. Sent (fst e)) (spool s) @ [Connected],
        resolved := resolved s @ map snd (spool s),
        spool := [], retries := 0, status := CONNECTED\<rparr>)"
  using bang_loop_flush [OF assms, of 0] by (simp add: bang_def emit_def)

lemma unspool_without_auth: "authpacket s = None \<Longrightarrow> unspool s = Throws TypeError s"
  by (simp add: unspool_def bang_def)

lemma unspool_settled_resolved:
  "unspool_settled (Resolved v) s =
     close (emit (Error (AuthenticationFailedError ''?'')) (emit (AuthResult v) s))"
  by (simp add: unspool_settled_def bang_def unspool_catch_def)

lemmas sample_defs =
  fresh_socket_def BeamSocket_def default_options_def boot_def getAddress_def ws_do_def
  resetConnectionTimeout_def resetPingTimeout_def clearTimeout_def setTimeout_def Let_def
  spooled_socket_def call_def send_def emit_def isConnected_def authMethod_def no_options_def
  whisper_frame_def

text \<open>
  Claim C2, at a concrete input. A call made after \<^verbatim>\<open>boot\<close> and before the welcome
  is spooled with its completion signal and a spooled notification. The flush does
  not take place: \<^verbatim>\<open>unspool\<close> invokes \<^verbatim>\<open>bang()\<close> as a plain function, whose
  \<^verbatim>\<open>this\<close> is not the Session, and throws a \<^verbatim>\<open>TypeError\<close> with the state
  untouched. The same happens when the welcome frame arrives through
  \<^verbatim>\<open>parsePacket\<close>: the frame stays in the spool, nothing is transmitted, no
  completion signal is resolved and the status stays CONNECTING. With a saved
  authentication tuple and a reply that grants the authentication, \<^verbatim>\<open>bang\<close>
  throws in the promise chain: the authentication-failed error is emitted and the
  Session closes with the frame still in the spool.
\<close>
theorem unspool_does_not_flush:
  "spool spooled_socket = [(whisper_frame, 0)]
   \<and> emitted spooled_socket = [Spooled whisper_frame]
   \<and> unspool spooled_socket = Throws TypeError spooled_socket
   \<and> thrown (parsePacket (Some welcome_packet) None spooled_socket) = Some TypeError
   \<and> spool (state_of (parsePacket (Some welcome_packet) None spooled_socket)) = [(whisper_frame, 0)]
   \<and> wire (state_of (parsePacket (Some welcome_packet) None spooled_socket)) = [(0, Op_new (Some ''b''))]
   \<and> resolved (state_of (parsePacket (Some welcome_packet) None spooled_socket)) = []
   \<and> status (state_of (parsePacket (Some welcome_packet) None spooled_socket)) = CONNECTING
   \<and> emitted (run auth_granted_run fresh_socket) =
        [Spooled whisper_frame, Sent auth_call_frame, Packet granted_reply,
         AuthResult (Some (JStr ''ok'')), Error (AuthenticationFailedError ''?'')]
   \<and> spool (run auth_granted_run fresh_socket) = [(whisper_frame, 0)]
   \<and> resolved (run auth_granted_run fresh_socket) = []
   \<and> status (run auth_granted_run fresh_socket) = CLOSING"
proof -
  have a: "authpacket spooled_socket = None"
    by (simp add: sample_defs)
  have 1: "spool spooled_socket = [(whisper_frame, 0)]" by (simp add: sample_defs)
  have 2: "emitted spooled_socket = [Spooled whisper_frame]" by (simp add: sample_defs)
  have 4: "unspool spooled_socket = Throws TypeError spooled_socket"
    using a by (simp add: unspool_without_auth)
  let ?s1 = "resetPingTimeout
       ((emit (Named ''WelcomeEvent'' None) (emit (Packet welcome_packet) spooled_socket))
          \<lparr>welcomeListeners := 0\<rparr>)"
  have w: "welcomeListeners spooled_socket = Suc 0" by (simp add: sample_defs)
  have a1: "authpacket ?s1 = None"
    using a by (simp add: resetPingTimeout_def emit_def clearTimeout_def setTimeout_def Let_def
        split: option.splits)
  have 5: "parsePacket (Some welcome_packet) None spooled_socket = Throws TypeError ?s1"
    using unspool_without_auth [OF a1]
    by (simp add: parsePacket_def get_prop_def field_def welcome_packet_def js_to_string_def
        emit_named_def welcome_listener_def w emit_def Let_def)
  have 6: "spool ?s1 = [(whisper_frame, 0)]" "wire ?s1 = [(0, Op_new (Some ''b''))]"
    "resolved ?s1 = []" "status ?s1 = CONNECTING"
    by (simp_all add: sample_defs)
  have 7: "emitted (run auth_granted_run fresh_socket) =
        [Spooled whisper_frame, Sent auth_call_frame, Packet granted_reply,
         AuthResult (Some (JStr ''ok'')), Error (AuthenticationFailedError ''?'')]"
    "spool (run auth_granted_run fresh_socket) = [(whisper_frame, 0)]"
    "resolved (run auth_granted_run fresh_socket) = []"
    "status (run auth_granted_run fresh_socket) = CLOSING"
    by (simp_all add: auth_granted_run_def granted_reply_def auth_run_defs unspool_settled_def
        bang_def unspool_catch_def close_def)
  show ?thesis using 1 2 4 6 7 unfolding 5 by (simp add: thrown_def)
qed

section \<open>Close and error events of the active transport\<close>

lemmas event_defs = on_close_def on_error_def on_open_def on_message_def whilstSameSocket_def
  handleClose_def getNextReconnectInterval_def retryWrap_def Math_round_def close_def
  emit_named_def welcome_listener_def unspool_def bang_def welcome_packet_def
  unspool_settled_def unspool_catch_def

text \<open>
  Claim C7, at concrete inputs. After \<^verbatim>\<open>boot\<close> the transport 0 is the active one and
  the connection timer is armed. Its close event does not reach \<^verbatim>\<open>_handleClose\<close>: the
  callback is applied to the global \<^verbatim>\<open>self\<close>, and throws a \<^verbatim>\<open>TypeError\<close> where
  that is some object other than the Session and a \<^verbatim>\<open>ReferenceError\<close> where it is
  not declared, with the Session as it was: the timer stays armed, the transport handle
  stays, the status stays, no reconnect is scheduled and nothing is emitted. An error
  event only emits the error and asks the transport to close; the close event that
  follows changes nothing. After \<^verbatim>\<open>close\<close> the close event leaves the status CLOSING,
  without a closed notification.
\<close>
theorem close_event_skips_closure_handling:
  "ws (boot fresh_socket) = Some 0
   \<and> pingTimeoutHandle (boot fresh_socket) = Some 0
   \<and> timers (boot fresh_socket) = [0 \<mapsto> (Cb_close_ws 0, 5000)]
   \<and> on_close 0 (boot fresh_socket) = Throws TypeError (boot fresh_socket)
   \<and> run [Ev_boot, Ev_closed 0] fresh_socket = boot fresh_socket
   \<and> on_close 0 (boot node_socket) = Throws ReferenceError (boot node_socket)
   \<and> run [Ev_boot, Ev_closed 0] node_socket = boot node_socket
   \<and> ws (run [Ev_boot, Ev_error 0 ''reset'', Ev_closed 0] fresh_socket) = Some 0
   \<and> status (run [Ev_boot, Ev_error 0 ''reset'', Ev_closed 0] fresh_socket) = CONNECTING
   \<and> timers (run [Ev_boot, Ev_error 0 ''reset'', Ev_closed 0] fresh_socket) =
        [0 \<mapsto> (Cb_close_ws 0, 5000)]
   \<and> reconnectTimeout (run [Ev_boot, Ev_error 0 ''reset'', Ev_closed 0] fresh_socket) = None
   \<and> wire (run [Ev_boot, Ev_error 0 ''reset'', Ev_closed 0] fresh_socket) =
        [(0, Op_new (Some ''b'')), (0, Op_close)]
   \<and> emitted (run [Ev_boot, Ev_error 0 ''reset'', Ev_closed 0] fresh_socket) =
        [Error (TransportError ''reset'')]
   \<and> status (run [Ev_boot, Ev_close, Ev_closed 0] fresh_socket) = CLOSING
   \<and> ws (run [Ev_boot, Ev_close, Ev_closed 0] fresh_socket) = Some 0
   \<and> emitted (run [Ev_boot, Ev_close, Ev_closed 0] fresh_socket) = []"
  by (simp add: node_socket_def run_defs event_defs)

section \<open>A rejected authentication\<close>

text \<open>
  Claim C3, at a concrete input. A Session with a saved authentication tuple and a
  spooled frame runs \<^verbatim>\<open>unspool\<close>; the authentication call goes out and its timer
  fires before any reply. One authentication-failed error is emitted, \<^verbatim>\<open>close\<close>
  asks the transport to close and the status is CLOSING. The close event of that
  transport then throws in the callback before \<^verbatim>\<open>_handleClose\<close>: the status stays
  CLOSING and no closed notification is emitted, on a host whose \<^verbatim>\<open>self\<close> is another
  object as on one that declares none. The same happens when \<^verbatim>\<open>unspool\<close> is run by
  the listener of the welcome frame.
\<close>
theorem rejected_authentication_stays_closing:
  "status (run (auth_racing_run @ [Ev_timer 1]) fresh_socket) = CLOSING
   \<and> emitted (run (auth_racing_run @ [Ev_timer 1]) fresh_socket) =
        [Spooled whisper_frame, Sent auth_call_frame, Error (AuthenticationFailedError ''?'')]
   \<and> wire (run (auth_racing_run @ [Ev_timer 1]) fresh_socket) =
        [(0, Op_new (Some ''b'')), (0, Op_send auth_call_frame), (0, Op_close)]
   \<and> spool (run (auth_racing_run @ [Ev_timer 1]) fresh_socket) = [(whisper_frame, 0)]
   \<and> on_close 0 (run (auth_racing_run @ [Ev_timer 1]) fresh_socket) =
        Throws TypeError (run (auth_racing_run @ [Ev_timer 1]) fresh_socket)
   \<and> status (run (auth_racing_run @ [Ev_timer 1, Ev_closed 0]) fresh_socket) = CLOSING
   \<and> emitted (run (auth_racing_run @ [Ev_timer 1, Ev_closed 0]) fresh_socket) =
        [Spooled whisper_frame, Sent auth_call_frame, Error (AuthenticationFailedError ''?'')]
   \<and> thrown (on_close 0 (run (auth_racing_run @ [Ev_timer 1]) node_socket)) = Some ReferenceError
   \<and> status (run (auth_racing_run @ [Ev_timer 1, Ev_closed 0]) node_socket) = CLOSING
   \<and> emitted (run (auth_welcome_run @ [Ev_closed 0]) fresh_socket) =
        [Spooled whisper_frame, Packet welcome_packet, Named ''WelcomeEvent'' None,
         Sent auth_call_frame, Error (AuthenticationFailedError ''?'')]
   \<and> status (run (auth_welcome_run @ [Ev_closed 0]) fresh_socket) = CLOSING"
  by (simp add: node_socket_def auth_welcome_run_def auth_run_defs event_defs thrown_def)

section \<open>The retry counter across a reconnection\<close>

lemma retries_run: "retries s \<le> retries (run evs s)"
proof (induction evs arbitrary: s)
  case Nil
  then show ?case by (simp add: run_def)
next
  case (Cons e evs)
  have "run (e # evs) s = run evs (step e s)" by (simp add: run_def)
  with retries_step [of s e] Cons.IH [of "step e s"] show ?case by simp
qed


end
